theory Spec2Isabelle
  imports Main
begin

section \<open>Events, messages and diagnostics\<close>

text \<open>
  \<^verbatim>\<open>BaseEvent<Payload>\<close>: \<^verbatim>\<open>{id, timestamp, source: {clientId}, context?, payload}\<close>.
  The field \<^verbatim>\<open>id\<close> is called \<open>event_id\<close> here (\<open>id\<close> is the identity function
  of HOL) and \<^verbatim>\<open>context\<close> is called \<open>event_context\<close>. Timestamps are integer
  milliseconds (\<^verbatim>\<open>Date.now()\<close>). The optional, opaque context is an optional string.
\<close>

record event_source =
  clientId :: string

record 'p event =
  event_id :: string
  timestamp :: int
  source :: event_source
  event_context :: "string option"
  payload :: 'p

text \<open>\<^verbatim>\<open>EventMessage<E>\<close>, the tagged union carried by a port.\<close>

datatype 'p EventMessage =
    EventMsg "'p event"
  | RejectionMsg string
  | RequestHistoryMsg int
  | EventHistoryMsg "'p event list"

text \<open>
  What the code writes to the console: \<^verbatim>\<open>console.error\<close> in the subscriber wrapper,
  \<^verbatim>\<open>console.warn\<close> in \<^verbatim>\<open>validateClientEvent\<close>.
\<close>

datatype ('p, 'x) diagnostic =
    SubscriberError 'x
  | DuplicateRejected string string
  | EventRejected string "'p event"

section \<open>Sorted merge\<close>

text \<open>
  \<^verbatim>\<open>mergeSorted(left, right, compare)\<close>: the loop takes \<^verbatim>\<open>left[i]\<close> when
  \<^verbatim>\<open>compare(left[i], right[j]) <= 0\<close> and \<^verbatim>\<open>right[j]\<close> otherwise, and appends what is
  left of both inputs once one of them is exhausted.
\<close>

fun mergeSorted :: "'a list \<Rightarrow> 'a list \<Rightarrow> ('a \<Rightarrow> 'a \<Rightarrow> int) \<Rightarrow> 'a list" where
  "mergeSorted [] right compare = right"
| "mergeSorted (l # left) [] compare = l # left"
| "mergeSorted (l # left) (r # right) compare =
     (if compare l r \<le> 0 then l # mergeSorted left (r # right) compare
      else r # mergeSorted (l # left) right compare)"

text \<open>
  Modelled from the spec: \<^verbatim>\<open>String.prototype.localeCompare\<close>, which the comparator of
  \<^verbatim>\<open>insertEvents\<close> calls as \<^verbatim>\<open>a.id.localeCompare(b.id)\<close>, is the collation of the
  platform's locale and is not in the sources. The specification reads it as "id
  ascending lexicographic"; the model is the lexicographic order of the two strings by
  character code: negative, zero or positive. The two differ where the collation does
  not follow character codes (the model puts \<open>B\<close> before \<open>a\<close>, a locale collation puts
  \<open>a\<close> before \<open>B\<close>); they agree on ids of lower-case letters alone, such as \<open>a\<close> and
  \<open>b\<close>.
\<close>

fun localeCompare :: "string \<Rightarrow> string \<Rightarrow> int" where
  "localeCompare [] [] = 0"
| "localeCompare [] (b # bs) = - 1"
| "localeCompare (a # as) [] = 1"
| "localeCompare (a # as) (b # bs) =
     (if a = b then localeCompare as bs
      else if (of_char a :: nat) < of_char b then - 1 else 1)"

text \<open>The comparator that \<^verbatim>\<open>insertEvents\<close> hands to \<^verbatim>\<open>mergeSorted\<close>.\<close>

definition compareEvents :: "'p event \<Rightarrow> 'p event \<Rightarrow> int" where
  "compareEvents a b =
     (if timestamp a \<noteq> timestamp b then timestamp a - timestamp b
      else localeCompare (event_id a) (event_id b))"

text \<open>\<^verbatim>\<open>Array.prototype.findIndex\<close>; the result \<^verbatim>\<open>-1\<close> is \<open>None\<close>.\<close>

fun findIndex :: "('a \<Rightarrow> bool) \<Rightarrow> 'a list \<Rightarrow> nat option" where
  "findIndex P [] = None"
| "findIndex P (x # xs) =
     (if P x then Some 0
      else (case findIndex P xs of None \<Rightarrow> None | Some i \<Rightarrow> Some (Suc i)))"

text \<open>
  \<^verbatim>\<open>const i = xs.indexOf(obj); if (i !== -1) xs.splice(i, 1)\<close>: the first element with
  the identity looked for is taken out.
\<close>

fun removeByRef :: "nat \<Rightarrow> (nat \<times> 'a) list \<Rightarrow> (nat \<times> 'a) list" where
  "removeByRef r [] = []"
| "removeByRef r (x # xs) = (if fst x = r then xs else x # removeByRef r xs)"

section \<open>The event log engine\<close>

text \<open>
  A snapshot \<^verbatim>\<open>{state, eventIndex}\<close>: the state just before the event at
  \<open>eventIndex\<close>.
\<close>

record 'st snapshot =
  snapshot_state :: 'st
  eventIndex :: nat

text \<open>
  The class \<^verbatim>\<open>EventSource<Event, State>\<close>. The reducer \<open>applyEvent\<close> either returns
  the next state (\<open>Inr\<close>) or throws (\<open>Inl\<close>). Subscriber wrappers and snapshot objects
  are compared by identity in the code (\<^verbatim>\<open>indexOf\<close>), so each is stored with a
  reference number drawn from \<open>next_ref\<close>. A subscriber callback is seen from the
  engine only by whether it returns (\<open>None\<close>) or throws (\<open>Some x\<close>); the calls made to
  callbacks are recorded in \<open>invoked\<close>, the console output in \<open>console\<close>.
\<close>

record ('p, 'st, 'x) EventSource =
  snapshotInterval :: int
  events :: "'p event list"
  subscribers :: "(nat \<times> ('st \<Rightarrow> 'x option)) list"
  state :: 'st
  snapshots :: "(nat \<times> 'st snapshot) list"
  initialState :: 'st
  applyEvent :: "'st \<Rightarrow> 'p event \<Rightarrow> 'x + 'st"
  next_ref :: nat
  invoked :: "(nat \<times> 'st) list"
  console :: "('p, 'x) diagnostic list"

text \<open>
  An operation that can be left by an exception returns \<open>Inl (x, e)\<close>: the exception
  thrown and the object as the exception leaves it; \<open>Inr e\<close> is a normal return.
\<close>

type_synonym ('x, 'a) result = "('x \<times> 'a) + 'a"

definition default_snapshotInterval :: int where
  "default_snapshotInterval = 100"

text \<open>The constructor; the option \<^verbatim>\<open>snapshotInterval\<close> defaults to 100.\<close>

definition new_EventSource ::
  "'st \<Rightarrow> ('st \<Rightarrow> 'p event \<Rightarrow> 'x + 'st) \<Rightarrow> int option \<Rightarrow> string + ('p, 'st, 'x) EventSource" where
  "new_EventSource init ap opt =
     (let interval = (case opt of None \<Rightarrow> default_snapshotInterval | Some i \<Rightarrow> i) in
      if interval \<le> 0 then Inl ''snapshotInterval must be a positive integer''
      else Inr \<lparr> snapshotInterval = interval, events = [], subscribers = [],
                 state = init, snapshots = [], initialState = init, applyEvent = ap,
                 next_ref = 0, invoked = [], console = [] \<rparr>)"

definition getState :: "('p, 'st, 'x, 'z) EventSource_scheme \<Rightarrow> 'st" where
  "getState e = state e"

text \<open>
  \<^verbatim>\<open>safeCallback\<close>, the wrapper that \<^verbatim>\<open>subscribe\<close> stores: it calls the callback and
  catches what it throws, reporting it with \<^verbatim>\<open>console.error\<close>.
\<close>

definition safeCallback ::
  "nat \<times> ('st \<Rightarrow> 'x option) \<Rightarrow> 'st \<Rightarrow> ('p, 'st, 'x, 'z) EventSource_scheme
     \<Rightarrow> ('p, 'st, 'x, 'z) EventSource_scheme" where
  "safeCallback sub st e =
     (let e1 = e\<lparr>invoked := invoked e @ [(fst sub, st)]\<rparr> in
      case snd sub st of
        None \<Rightarrow> e1
      | Some x \<Rightarrow> e1\<lparr>console := console e1 @ [SubscriberError x]\<rparr>)"

definition subscribe ::
  "('p, 'st, 'x, 'z) EventSource_scheme \<Rightarrow> ('st \<Rightarrow> 'x option)
     \<Rightarrow> ('p, 'st, 'x, 'z) EventSource_scheme \<times> nat" where
  "subscribe e callback =
     (let sub = (next_ref e, callback);
          e1 = e\<lparr>subscribers := subscribers e @ [sub], next_ref := Suc (next_ref e)\<rparr>
      in (safeCallback sub (state e1) e1, fst sub))"

text \<open>The function returned by \<^verbatim>\<open>subscribe\<close>, for the subscription \<open>r\<close>.\<close>

definition unsubscribe ::
  "('p, 'st, 'x, 'z) EventSource_scheme \<Rightarrow> nat \<Rightarrow> ('p, 'st, 'x, 'z) EventSource_scheme" where
  "unsubscribe e r = e\<lparr>subscribers := removeByRef r (subscribers e)\<rparr>"

text \<open>\<^verbatim>\<open>notify\<close> runs over a copy of the subscriber list.\<close>

definition notify ::
  "('p, 'st, 'x, 'z) EventSource_scheme \<Rightarrow> ('p, 'st, 'x, 'z) EventSource_scheme" where
  "notify e = foldl (\<lambda>acc sub. safeCallback sub (state acc) acc) e (subscribers e)"

text \<open>
  The loop of \<^verbatim>\<open>replay\<close>: \<^verbatim>\<open>this.state = this.applyEvent(this.state, event)\<close> for each
  event. When the reducer throws, the state is the one reached before the failing event.
\<close>

fun applyEvents ::
  "('st \<Rightarrow> 'p event \<Rightarrow> 'x + 'st) \<Rightarrow> 'st \<Rightarrow> 'p event list \<Rightarrow> ('x, 'st) result" where
  "applyEvents ap st [] = Inr st"
| "applyEvents ap st (ev # evs) =
     (case ap st ev of
        Inl x \<Rightarrow> Inl (x, st)
      | Inr st' \<Rightarrow> applyEvents ap st' evs)"

definition replay ::
  "('p, 'st, 'x, 'z) EventSource_scheme \<Rightarrow> 'p event list
     \<Rightarrow> ('x, ('p, 'st, 'x, 'z) EventSource_scheme) result" where
  "replay e evs =
     (case applyEvents (applyEvent e) (state e) evs of
        Inl (x, st) \<Rightarrow> Inl (x, e\<lparr>state := st\<rparr>)
      | Inr st \<Rightarrow> Inr (notify (e\<lparr>state := st\<rparr>)))"

definition getLatestSnapshot :: "('p, 'st, 'x, 'z) EventSource_scheme \<Rightarrow> 'st snapshot" where
  "getLatestSnapshot e =
     (if length (snapshots e) = 0 then \<lparr>snapshot_state = initialState e, eventIndex = 0\<rparr>
      else snd (snapshots e ! (length (snapshots e) - 1)))"

definition dropLatestSnapshot ::
  "('p, 'st, 'x, 'z) EventSource_scheme \<Rightarrow> ('p, 'st, 'x, 'z) EventSource_scheme" where
  "dropLatestSnapshot e =
     (if length (snapshots e) = 0 then e else e\<lparr>snapshots := butlast (snapshots e)\<rparr>)"

text \<open>
  \<^verbatim>\<open>createSnapshot\<close> returns the disposer of the snapshot it pushed; the model returns
  the snapshot's reference, and \<open>disposeSnapshot\<close> is the disposer.
\<close>

definition createSnapshot ::
  "('p, 'st, 'x, 'z) EventSource_scheme \<Rightarrow> ('p, 'st, 'x, 'z) EventSource_scheme \<times> nat" where
  "createSnapshot e =
     (let snapshot = \<lparr>snapshot_state = state e, eventIndex = length (events e)\<rparr>
      in (e\<lparr>snapshots := snapshots e @ [(next_ref e, snapshot)],
            next_ref := Suc (next_ref e)\<rparr>, next_ref e))"

definition disposeSnapshot ::
  "('p, 'st, 'x, 'z) EventSource_scheme \<Rightarrow> nat \<Rightarrow> ('p, 'st, 'x, 'z) EventSource_scheme" where
  "disposeSnapshot e r = e\<lparr>snapshots := removeByRef r (snapshots e)\<rparr>"

text \<open>
  \<^verbatim>\<open>dispatch\<close>: push, apply, notify, then the auto-snapshot test
  \<^verbatim>\<open>events.length - latestSnapshot.eventIndex >= snapshotInterval\<close>.
\<close>

definition dispatch ::
  "('p, 'st, 'x, 'z) EventSource_scheme \<Rightarrow> 'p event
     \<Rightarrow> ('x, ('p, 'st, 'x, 'z) EventSource_scheme) result" where
  "dispatch e ev =
     (let e1 = e\<lparr>events := events e @ [ev]\<rparr> in
      case applyEvent e1 (state e1) ev of
        Inl x \<Rightarrow> Inl (x, e1)
      | Inr st \<Rightarrow>
          (let e2 = notify (e1\<lparr>state := st\<rparr>);
               latestSnapshot = getLatestSnapshot e2
           in if int (length (events e2)) - int (eventIndex latestSnapshot) \<ge> snapshotInterval e2
              then Inr (fst (createSnapshot e2))
              else Inr e2))"

text \<open>
  \<^verbatim>\<open>while (this.getLatestSnapshot().eventIndex > eventIndex) this.dropLatestSnapshot()\<close>.
  With no snapshot left the latest snapshot is the initial one, at index 0, and the loop
  ends.
\<close>

function dropSnapshotsAfterEventIndex ::
  "('p, 'st, 'x, 'z) EventSource_scheme \<Rightarrow> nat \<Rightarrow> ('p, 'st, 'x, 'z) EventSource_scheme" where
  "dropSnapshotsAfterEventIndex e i =
     (if eventIndex (getLatestSnapshot e) > i
      then dropSnapshotsAfterEventIndex (dropLatestSnapshot e) i
      else e)"
  by pat_completeness auto
termination
  by (relation "measure (\<lambda>(e, i). length (snapshots e))")
     (auto simp: getLatestSnapshot_def dropLatestSnapshot_def split: if_splits)

declare dropSnapshotsAfterEventIndex.simps [simp del]

text \<open>
  \<^verbatim>\<open>rollbackToSnapshotSilent\<close>: the state of the latest snapshot is restored, the events
  from its index on are cut off the log and returned.
\<close>

definition rollbackToSnapshotSilent ::
  "('p, 'st, 'x, 'z) EventSource_scheme
     \<Rightarrow> 'p event list \<times> ('p, 'st, 'x, 'z) EventSource_scheme" where
  "rollbackToSnapshotSilent e =
     (let snapshot = getLatestSnapshot e;
          e1 = e\<lparr>state := snapshot_state snapshot\<rparr>;
          removedEvents = drop (eventIndex snapshot) (events e1)
      in (removedEvents, e1\<lparr>events := take (eventIndex snapshot) (events e1)\<rparr>))"

definition insertEvents ::
  "('p, 'st, 'x, 'z) EventSource_scheme \<Rightarrow> 'p event list
     \<Rightarrow> ('x, ('p, 'st, 'x, 'z) EventSource_scheme) result" where
  "insertEvents e evs =
     (if length evs = 0 then Inr e
      else
        (let firstNewEventTimestamp = timestamp (hd evs);
             postEventIndex = findIndex (\<lambda>x. timestamp x > firstNewEventTimestamp) (events e);
             insertIndex = (case postEventIndex of None \<Rightarrow> length (events e) | Some i \<Rightarrow> i);
             e1 = dropSnapshotsAfterEventIndex e insertIndex;
             (existingEvents, e2) = rollbackToSnapshotSilent e1;
             newEvents = mergeSorted existingEvents evs compareEvents;
             e3 = e2\<lparr>events := events e2 @ newEvents\<rparr>
         in replay e3 newEvents))"

text \<open>
  \<^verbatim>\<open>removeEvent\<close>; its \<^verbatim>\<open>while\<close> loop is the one of
  \<^verbatim>\<open>dropSnapshotsAfterEventIndex\<close>, written out in the source.
\<close>

definition removeEvent ::
  "('p, 'st, 'x, 'z) EventSource_scheme \<Rightarrow> 'p event
     \<Rightarrow> ('x, ('p, 'st, 'x, 'z) EventSource_scheme) result" where
  "removeEvent e ev =
     (case findIndex (\<lambda>x. event_id x = event_id ev) (events e) of
        None \<Rightarrow> Inr e
      | Some index \<Rightarrow>
          (let e1 = dropSnapshotsAfterEventIndex e index;
               snapshot = getLatestSnapshot e1;
               eventsToReplay =
                 filter (\<lambda>x. event_id x \<noteq> event_id ev) (drop (eventIndex snapshot) (events e1));
               e2 = e1\<lparr>events := take (eventIndex snapshot) (events e1)\<rparr>;
               e3 = e2\<lparr>state := snapshot_state snapshot\<rparr>;
               e4 = e3\<lparr>events := events e3 @ eventsToReplay\<rparr>
           in replay e4 eventsToReplay))"

definition rebaseline ::
  "('p, 'st, 'x, 'z) EventSource_scheme \<Rightarrow> 'st \<Rightarrow> ('p, 'st, 'x, 'z) EventSource_scheme" where
  "rebaseline e st =
     notify (e\<lparr>initialState := st, events := [], snapshots := [], state := st\<rparr>)"

section \<open>The host\<close>

text \<open>
  The class \<^verbatim>\<open>HostEventSource\<close> extends the engine. \<^verbatim>\<open>clients\<close> is a JavaScript
  \<^verbatim>\<open>Map\<close>, which keeps insertion order: an association list from the client id to the
  port and to the listener that \<^verbatim>\<open>dispose\<close> aborts. A port is known by a number;
  \<open>posted\<close> records every \<^verbatim>\<open>port.postMessage(m)\<close> as \<open>(port, m)\<close>, in order, and
  \<open>listeners\<close> the message listeners that are registered and not aborted, each with the
  client id and port of its closure. \<^verbatim>\<open>subscribeEvents\<close>, a subscription to copies of
  the log, is left out.
\<close>

record client =
  port :: nat
  dispose :: nat

record ('p, 'st, 'x) HostEventSource = "('p, 'st, 'x) EventSource" +
  clients :: "(string \<times> client) list"
  pastEventIds :: "string set"
  validate :: "'p event \<Rightarrow> string \<Rightarrow> bool"
  filterForClient :: "'p \<Rightarrow> string \<Rightarrow> 'p option"
  posted :: "(nat \<times> 'p EventMessage) list"
  listeners :: "(nat \<times> string \<times> nat) list"

text \<open>\<^verbatim>\<open>Map.prototype.set\<close>, \<^verbatim>\<open>get\<close> and \<^verbatim>\<open>delete\<close> on the association list.\<close>

fun map_set :: "'k \<Rightarrow> 'v \<Rightarrow> ('k \<times> 'v) list \<Rightarrow> ('k \<times> 'v) list" where
  "map_set k v [] = [(k, v)]"
| "map_set k v (p # ps) = (if fst p = k then (k, v) # ps else p # map_set k v ps)"

fun map_get :: "'k \<Rightarrow> ('k \<times> 'v) list \<Rightarrow> 'v option" where
  "map_get k [] = None"
| "map_get k (p # ps) = (if fst p = k then Some (snd p) else map_get k ps)"

fun map_delete :: "'k \<Rightarrow> ('k \<times> 'v) list \<Rightarrow> ('k \<times> 'v) list" where
  "map_delete k [] = []"
| "map_delete k (p # ps) = (if fst p = k then ps else p # map_delete k ps)"

text \<open>The constructor: \<^verbatim>\<open>super(initialState, applyEvent)\<close>, with the default interval.\<close>

definition new_HostEventSource ::
  "'st \<Rightarrow> ('st \<Rightarrow> 'p event \<Rightarrow> 'x + 'st) \<Rightarrow> ('p event \<Rightarrow> string \<Rightarrow> bool)
     \<Rightarrow> ('p \<Rightarrow> string \<Rightarrow> 'p option) \<Rightarrow> ('p, 'st, 'x) HostEventSource" where
  "new_HostEventSource init ap val flt =
     \<lparr> snapshotInterval = default_snapshotInterval, events = [], subscribers = [],
       state = init, snapshots = [], initialState = init, applyEvent = ap,
       next_ref = 0, invoked = [], console = [],
       clients = [], pastEventIds = {}, validate = val, filterForClient = flt,
       posted = [], listeners = [] \<rparr>"

definition validateClientEvent ::
  "('p, 'st, 'x, 'z) HostEventSource_scheme \<Rightarrow> 'p event \<Rightarrow> string
     \<Rightarrow> bool \<times> ('p, 'st, 'x, 'z) HostEventSource_scheme" where
  "validateClientEvent h proposedEvent cid =
     (if event_id proposedEvent \<in> pastEventIds h
      then (False, h\<lparr>console := console h @ [DuplicateRejected cid (event_id proposedEvent)]\<rparr>)
      else if \<not> validate h proposedEvent cid
      then (False, h\<lparr>console := console h @ [EventRejected cid proposedEvent]\<rparr>)
      else (True, h))"

definition sendRejectionToClient ::
  "('p, 'st, 'x, 'z) HostEventSource_scheme \<Rightarrow> string \<Rightarrow> string
     \<Rightarrow> ('p, 'st, 'x, 'z) HostEventSource_scheme" where
  "sendRejectionToClient h eventId cid =
     (case map_get cid (clients h) of
        None \<Rightarrow> h
      | Some c \<Rightarrow> h\<lparr>posted := posted h @ [(port c, RejectionMsg eventId)]\<rparr>)"

text \<open>
  Modelled from the spec: the method \<^verbatim>\<open>dispatchEvent(event)\<close> of the base class, which
  the host calls as \<^verbatim>\<open>this.dispatchEvent\<close> and \<^verbatim>\<open>super.dispatchEvent\<close>, is not in the
  sources under that name. It is the engine's dispatch of an event (append, apply,
  notify, auto-snapshot), \<open>dispatch\<close> above, which the test class of the engine exposes
  under this name. Being a method of the base class, it reaches neither the private
  \<^verbatim>\<open>pastEventIds\<close> nor the private \<^verbatim>\<open>broadcast\<close> of the host.
\<close>

definition dispatchEvent ::
  "('p, 'st, 'x, 'z) EventSource_scheme \<Rightarrow> 'p event
     \<Rightarrow> ('x, ('p, 'st, 'x, 'z) EventSource_scheme) result" where
  "dispatchEvent e ev = dispatch e ev"

text \<open>
  \<^verbatim>\<open>receiveFromClient\<close>. The proposal arrives as a whole event record; the spread
  \<^verbatim>\<open>{...proposedEvent, timestamp: Date.now(), source: {clientId}}\<close> overwrites its
  timestamp and source. \<open>now\<close> is the value of \<^verbatim>\<open>Date.now()\<close>. The method
  \<^verbatim>\<open>dispatch\<close> of the host takes a payload and is \<open>HostEventSource_dispatch\<close> below.
\<close>

definition receiveFromClient ::
  "('p, 'st, 'x, 'z) HostEventSource_scheme \<Rightarrow> int \<Rightarrow> 'p event \<Rightarrow> string
     \<Rightarrow> ('x, ('p, 'st, 'x, 'z) HostEventSource_scheme) result" where
  "receiveFromClient h now proposedEvent cid =
     (case validateClientEvent h proposedEvent cid of
        (False, h1) \<Rightarrow> Inr (sendRejectionToClient h1 (event_id proposedEvent) cid)
      | (True, h1) \<Rightarrow>
          (let authoritativeEvent =
                 proposedEvent\<lparr>timestamp := now, source := \<lparr>clientId = cid\<rparr>\<rparr>
           in dispatchEvent h1 authoritativeEvent))"

text \<open>
  One turn of the loop of \<^verbatim>\<open>broadcast\<close>. The test \<^verbatim>\<open>if (filtered)\<close> is JavaScript
  truthiness, a property of the payload type that the class does not fix: it is the
  parameter \<open>truthy\<close>; \<^verbatim>\<open>null\<close> is never truthy.
\<close>

definition broadcast_to ::
  "('p \<Rightarrow> bool) \<Rightarrow> 'p event \<Rightarrow> ('p, 'st, 'x, 'z) HostEventSource_scheme \<Rightarrow> string \<times> client
     \<Rightarrow> ('p, 'st, 'x, 'z) HostEventSource_scheme" where
  "broadcast_to truthy authoritativeEvent h entry =
     (case filterForClient h (payload authoritativeEvent) (fst entry) of
        None \<Rightarrow> h
      | Some filtered \<Rightarrow>
          if truthy filtered
          then h\<lparr>posted := posted h @
                   [(port (snd entry), EventMsg (authoritativeEvent\<lparr>payload := filtered\<rparr>))]\<rparr>
          else h)"

definition broadcast ::
  "('p \<Rightarrow> bool) \<Rightarrow> ('p, 'st, 'x, 'z) HostEventSource_scheme \<Rightarrow> 'p event
     \<Rightarrow> ('p, 'st, 'x, 'z) HostEventSource_scheme" where
  "broadcast truthy h authoritativeEvent =
     foldl (broadcast_to truthy authoritativeEvent) h (clients h)"

text \<open>
  The host's own \<^verbatim>\<open>dispatch(payload)\<close>; \<open>newId\<close> is the value of
  \<^verbatim>\<open>generateEventId()\<close> and \<open>now\<close> that of \<^verbatim>\<open>Date.now()\<close>.
\<close>

definition HostEventSource_dispatch ::
  "('p \<Rightarrow> bool) \<Rightarrow> ('p, 'st, 'x, 'z) HostEventSource_scheme \<Rightarrow> string \<Rightarrow> int \<Rightarrow> 'p
     \<Rightarrow> ('x, ('p, 'st, 'x, 'z) HostEventSource_scheme) result" where
  "HostEventSource_dispatch truthy h newId now pl =
     (let ev = \<lparr> event_id = newId, timestamp = now, source = \<lparr>clientId = ''host''\<rparr>,
                 event_context = None, payload = pl \<rparr>;
          h1 = h\<lparr>pastEventIds := insert (event_id ev) (pastEventIds h)\<rparr>
      in case dispatchEvent h1 ev of
           Inl err \<Rightarrow> Inl err
         | Inr h2 \<Rightarrow> Inr (broadcast truthy h2 ev))"

text \<open>
  The \<^verbatim>\<open>requestHistory\<close> branch of the listener: filter by timestamp, map each event
  to its filtered copy or to \<^verbatim>\<open>null\<close>, filter the \<^verbatim>\<open>null\<close>s out.
\<close>

definition eventsToSend ::
  "('p, 'st, 'x, 'z) HostEventSource_scheme \<Rightarrow> string \<Rightarrow> int \<Rightarrow> 'p event list" where
  "eventsToSend h cid since =
     map the
       (filter (\<lambda>e. e \<noteq> None)
          (map (\<lambda>e. case filterForClient h (payload e) cid of
                       Some filtered \<Rightarrow> Some (e\<lparr>payload := filtered\<rparr>)
                     | None \<Rightarrow> None)
             (filter (\<lambda>e. timestamp e > since) (events h))))"

text \<open>
  The message listener that \<^verbatim>\<open>addClient(clientId, port)\<close> registers on the port, with
  the \<open>cid\<close> and \<open>prt\<close> of its closure; \<open>now\<close> is the clock at the time of the message.
\<close>

definition onMessage ::
  "('p, 'st, 'x, 'z) HostEventSource_scheme \<Rightarrow> int \<Rightarrow> string \<Rightarrow> nat \<Rightarrow> 'p EventMessage
     \<Rightarrow> ('x, ('p, 'st, 'x, 'z) HostEventSource_scheme) result" where
  "onMessage h now cid prt data =
     (case data of
        EventMsg ev \<Rightarrow> receiveFromClient h now ev cid
      | RequestHistoryMsg since \<Rightarrow>
          Inr (h\<lparr>posted := posted h @ [(prt, EventHistoryMsg (eventsToSend h cid since))]\<rparr>)
      | _ \<Rightarrow> Inr h)"

definition addClient ::
  "('p, 'st, 'x, 'z) HostEventSource_scheme \<Rightarrow> string \<Rightarrow> nat
     \<Rightarrow> ('p, 'st, 'x, 'z) HostEventSource_scheme" where
  "addClient h cid prt =
     (let abortController = next_ref h;
          h1 = h\<lparr>listeners := listeners h @ [(abortController, cid, prt)],
                 next_ref := Suc (next_ref h)\<rparr>
      in h1\<lparr>clients := map_set cid \<lparr>port = prt, dispose = abortController\<rparr> (clients h1)\<rparr>)"

definition removeClient ::
  "('p, 'st, 'x, 'z) HostEventSource_scheme \<Rightarrow> string
     \<Rightarrow> ('p, 'st, 'x, 'z) HostEventSource_scheme" where
  "removeClient h cid =
     (case map_get cid (clients h) of
        None \<Rightarrow> h
      | Some c \<Rightarrow>
          (let h1 = h\<lparr>listeners := removeByRef (dispose c) (listeners h)\<rparr>
           in h1\<lparr>clients := map_delete cid (clients h1)\<rparr>))"

text \<open>\<^verbatim>\<open>drop()\<close>: \<^verbatim>\<open>events.at(-1)\<close> is the last event, or \<^verbatim>\<open>undefined\<close> on an empty log.\<close>

definition HostEventSource_drop :: "('p, 'st, 'x, 'z) HostEventSource_scheme
     \<Rightarrow> ('x, ('p, 'st, 'x, 'z) HostEventSource_scheme) result" where
  "HostEventSource_drop h =
     (if events h = [] then Inr h else removeEvent h (last (events h)))"

section \<open>The test fixtures of the engine\<close>

text \<open>
  The counter of \<^verbatim>\<open>EventSource.test.ts\<close>: events of type \<^verbatim>\<open>ADD\<close>, \<^verbatim>\<open>SUBTRACT\<close>,
  \<^verbatim>\<open>MULTIPLY\<close> and \<^verbatim>\<open>RESET\<close> with an optional \<^verbatim>\<open>value\<close> or \<^verbatim>\<open>newValue\<close>, the state
  \<^verbatim>\<open>{count, lastOperationType?}\<close>, the reducer \<^verbatim>\<open>TestEventSource.applyEvent\<close>, the
  throwing reducer \<^verbatim>\<open>faultyApplyEvent\<close> and the event builder \<^verbatim>\<open>createEvent\<close>. The type
  tag of a test event is kept with its payload.
\<close>

datatype TestEvent_type = ADD | SUBTRACT | MULTIPLY | RESET

record TestEvent_payload =
  op_type :: TestEvent_type
  op_value :: "int option"
  newValue :: "int option"

record CounterState =
  count :: int
  lastOperationType :: "string option"

definition TestEventSource_applyEvent ::
  "CounterState \<Rightarrow> TestEvent_payload event \<Rightarrow> string + CounterState" where
  "TestEventSource_applyEvent st ev =
     (case op_type (payload ev) of
        ADD \<Rightarrow>
          Inr \<lparr>count = count st + (case op_value (payload ev) of None \<Rightarrow> 1 | Some v \<Rightarrow> v),
               lastOperationType = Some ''ADD''\<rparr>
      | SUBTRACT \<Rightarrow>
          Inr \<lparr>count = count st - (case op_value (payload ev) of None \<Rightarrow> 1 | Some v \<Rightarrow> v),
               lastOperationType = Some ''SUBTRACT''\<rparr>
      | MULTIPLY \<Rightarrow>
          Inr \<lparr>count = count st * (case op_value (payload ev) of None \<Rightarrow> 1 | Some v \<Rightarrow> v),
               lastOperationType = Some ''MULTIPLY''\<rparr>
      | RESET \<Rightarrow>
          Inr \<lparr>count = (case newValue (payload ev) of None \<Rightarrow> 0 | Some v \<Rightarrow> v),
               lastOperationType = Some ''RESET''\<rparr>)"

definition faultyApplyEvent ::
  "CounterState \<Rightarrow> TestEvent_payload event \<Rightarrow> string + CounterState" where
  "faultyApplyEvent st ev =
     (if op_type (payload ev) = SUBTRACT then Inl ''Faulty apply event''
      else TestEventSource_applyEvent st ev)"

definition createEvent ::
  "TestEvent_type \<Rightarrow> int option \<Rightarrow> int \<Rightarrow> string \<Rightarrow> TestEvent_payload event" where
  "createEvent ty v ts i =
     \<lparr> event_id = i, timestamp = ts, source = \<lparr>clientId = ''test-client''\<rparr>,
       event_context = None,
       payload = \<lparr>op_type = ty, op_value = v, newValue = None\<rparr> \<rparr>"

definition initial_counter :: CounterState where
  "initial_counter = \<lparr>count = 0, lastOperationType = None\<rparr>"

text \<open>A host over the counter that accepts every proposal and hides nothing, with two clients.\<close>

definition accept_all :: "TestEvent_payload event \<Rightarrow> string \<Rightarrow> bool" where
  "accept_all ev cid = True"

definition no_filter :: "TestEvent_payload \<Rightarrow> string \<Rightarrow> TestEvent_payload option" where
  "no_filter p cid = Some p"

definition test_host :: "(TestEvent_payload, CounterState, string) HostEventSource" where
  "test_host =
     addClient (addClient
       (new_HostEventSource initial_counter TestEventSource_applyEvent accept_all no_filter)
       ''c1'' 1) ''c2'' 2"

text \<open>The engine of the tests, \<^verbatim>\<open>new TestEventSource()\<close>, and a hundred tail events adding 1.\<close>

definition test_engine :: "(TestEvent_payload, CounterState, string) EventSource" where
  "test_engine = projr (new_EventSource initial_counter TestEventSource_applyEvent None)"

definition hundred_events :: "TestEvent_payload event list" where
  "hundred_events =
     map (\<lambda>i. createEvent ADD (Some 1) (1000 + int i) (replicate (Suc i) CHR ''e'')) [0..<100]"

text \<open>An engine over the counter with a subscriber that throws and one that does not.\<close>

definition faulty_listener :: "CounterState \<Rightarrow> string option" where
  "faulty_listener st = Some ''Subscriber error''"

definition quiet_listener :: "CounterState \<Rightarrow> string option" where
  "quiet_listener st = None"

definition listening_engine :: "(TestEvent_payload, CounterState, string) EventSource" where
  "listening_engine =
     fst (subscribe (fst (subscribe test_engine faulty_listener)) quiet_listener)"

section \<open>Notions of the specification\<close>

text \<open>
  A loop of calls of \<^verbatim>\<open>dispatch\<close>, one per event, as the tests write it; it stops at the
  first exception.
\<close>

fun dispatchAll ::
  "('p, 'st, 'x, 'z) EventSource_scheme \<Rightarrow> 'p event list
     \<Rightarrow> ('x, ('p, 'st, 'x, 'z) EventSource_scheme) result" where
  "dispatchAll e [] = Inr e"
| "dispatchAll e (ev # evs) =
     (case dispatch e ev of Inl err \<Rightarrow> Inl err | Inr e' \<Rightarrow> dispatchAll e' evs)"

text \<open>
  The state that the loop of \<^verbatim>\<open>replay\<close> leaves when it is run from \<open>st\<close> over \<open>evs\<close>.
\<close>

definition replayed :: "('st \<Rightarrow> 'p event \<Rightarrow> 'x + 'st) \<Rightarrow> 'st \<Rightarrow> 'p event list \<Rightarrow> 'st" where
  "replayed ap st evs = (case applyEvents ap st evs of Inl (x, st') \<Rightarrow> st' | Inr st' \<Rightarrow> st')"

text \<open>
  I1: the log is strictly sorted by (timestamp, id), under the comparator of the engine,
  and its ids are distinct.
\<close>

definition log_ordered :: "'p event list \<Rightarrow> bool" where
  "log_ordered log \<longleftrightarrow>
     sorted_wrt (\<lambda>a b. compareEvents a b < 0) log \<and> distinct (map event_id log)"

text \<open>
  One notification pass over the subscribers \<open>subs\<close> with the state \<open>st\<close>: the calls it
  makes, and what it reports to the console.
\<close>

definition notifications :: "(nat \<times> ('st \<Rightarrow> 'x option)) list \<Rightarrow> 'st \<Rightarrow> (nat \<times> 'st) list" where
  "notifications subs st = map (\<lambda>sub. (fst sub, st)) subs"

definition reported ::
  "(nat \<times> ('st \<Rightarrow> 'x option)) list \<Rightarrow> 'st \<Rightarrow> ('p, 'x) diagnostic list" where
  "reported subs st =
     concat (map (\<lambda>sub. case snd sub st of None \<Rightarrow> [] | Some x \<Rightarrow> [SubscriberError x]) subs)"

text \<open>
  The history reply in the words of the specification: the log events with a timestamp
  above \<open>since\<close>, in log order, each with its payload replaced by the filter's result,
  those with no result left out.
\<close>

fun requested_history ::
  "('p \<Rightarrow> string \<Rightarrow> 'p option) \<Rightarrow> string \<Rightarrow> int \<Rightarrow> 'p event list \<Rightarrow> 'p event list" where
  "requested_history flt cid since [] = []"
| "requested_history flt cid since (e # log) =
     (if timestamp e > since
      then (case flt (payload e) cid of
              None \<Rightarrow> requested_history flt cid since log
            | Some p \<Rightarrow> e\<lparr>payload := p\<rparr> # requested_history flt cid since log)
      else requested_history flt cid since log)"

text \<open>
  A public operation of the engine, and a sequence of them run in order, stopping at the
  first exception. \<open>DisposeSnapshot r\<close> and \<open>Unsubscribe r\<close> call the function that
  \<^verbatim>\<open>createSnapshot\<close> or \<^verbatim>\<open>subscribe\<close> returned for the reference \<open>r\<close>.
\<close>

datatype ('p, 'st, 'x) operation =
    Dispatch "'p event"
  | InsertEvents "'p event list"
  | RemoveEvent "'p event"
  | CreateSnapshot
  | DisposeSnapshot nat
  | Rebaseline 'st
  | Replay "'p event list"
  | Subscribe "'st \<Rightarrow> 'x option"
  | Unsubscribe nat

fun perform ::
  "('p, 'st, 'x, 'z) EventSource_scheme \<Rightarrow> ('p, 'st, 'x) operation
     \<Rightarrow> ('x, ('p, 'st, 'x, 'z) EventSource_scheme) result" where
  "perform e (Dispatch ev) = dispatch e ev"
| "perform e (InsertEvents evs) = insertEvents e evs"
| "perform e (RemoveEvent ev) = removeEvent e ev"
| "perform e CreateSnapshot = Inr (fst (createSnapshot e))"
| "perform e (DisposeSnapshot r) = Inr (disposeSnapshot e r)"
| "perform e (Rebaseline st) = Inr (rebaseline e st)"
| "perform e (Replay evs) = replay e evs"
| "perform e (Subscribe callback) = Inr (fst (subscribe e callback))"
| "perform e (Unsubscribe r) = Inr (unsubscribe e r)"

fun performAll ::
  "('p, 'st, 'x, 'z) EventSource_scheme \<Rightarrow> ('p, 'st, 'x) operation list
     \<Rightarrow> ('x, ('p, 'st, 'x, 'z) EventSource_scheme) result" where
  "performAll e [] = Inr e"
| "performAll e (opn # ops) =
     (case perform e opn of Inl err \<Rightarrow> Inl err | Inr e' \<Rightarrow> performAll e' ops)"

fun is_Replay :: "('p, 'st, 'x) operation \<Rightarrow> bool" where
  "is_Replay (Replay evs) = True"
| "is_Replay opn = False"

text \<open>
  I3 for one snapshot: its index is within the log and its state is the replay of the
  log before that index, from the initial state.
\<close>

definition snapshot_sound :: "('p, 'st, 'x, 'z) EventSource_scheme \<Rightarrow> 'st snapshot \<Rightarrow> bool" where
  "snapshot_sound e sn \<longleftrightarrow>
     eventIndex sn \<le> length (events e) \<and>
     applyEvents (applyEvent e) (initialState e) (take (eventIndex sn) (events e))
       = Inr (snapshot_state sn)"

text \<open>
  The invariant of the engine: I2 (the state is the replay of the log from the initial
  state), I3 for every snapshot, and snapshot indices in ascending order.
\<close>

definition engine_inv :: "('p, 'st, 'x, 'z) EventSource_scheme \<Rightarrow> bool" where
  "engine_inv e \<longleftrightarrow>
     applyEvents (applyEvent e) (initialState e) (events e) = Inr (state e) \<and>
     (\<forall>sn \<in> set (snapshots e). snapshot_sound e (snd sn)) \<and>
     sorted (map (eventIndex \<circ> snd) (snapshots e))"

text \<open>
  The rewind that \<^verbatim>\<open>insertEvents\<close> and \<^verbatim>\<open>removeEvent\<close> share, in closed form:
  the snapshots that the loop of \<^verbatim>\<open>dropSnapshotsAfterEventIndex\<close> retains for the index
  \<open>i\<close>, the index \<open>anchor\<close> of the latest of them, and the engine \<open>rewound\<close> to it with
  \<open>tail\<close> put back on the log. \<open>insertIndex\<close> is the anchor that \<^verbatim>\<open>insertEvents\<close>
  computes from the first new timestamp.
\<close>

definition retained :: "nat \<Rightarrow> (nat \<times> 'st snapshot) list \<Rightarrow> (nat \<times> 'st snapshot) list" where
  "retained i snaps = rev (dropWhile (\<lambda>s. i < eventIndex (snd s)) (rev snaps))"

definition rewound ::
  "('p, 'st, 'x, 'z) EventSource_scheme \<Rightarrow> nat \<Rightarrow> 'p event list
     \<Rightarrow> ('p, 'st, 'x, 'z) EventSource_scheme" where
  "rewound e i tail =
     (let e1 = dropSnapshotsAfterEventIndex e i; sn = getLatestSnapshot e1
      in e1\<lparr>events := take (eventIndex sn) (events e) @ tail, state := snapshot_state sn\<rparr>)"

definition anchor :: "('p, 'st, 'x, 'z) EventSource_scheme \<Rightarrow> nat \<Rightarrow> nat" where
  "anchor e i = eventIndex (getLatestSnapshot (dropSnapshotsAfterEventIndex e i))"

definition insertIndex :: "'p event list \<Rightarrow> 'p event list \<Rightarrow> nat" where
  "insertIndex log evs =
     (case findIndex (\<lambda>x. timestamp x > timestamp (hd evs)) log of
        None \<Rightarrow> length log | Some i \<Rightarrow> i)"

text \<open>
  What the replay inside \<^verbatim>\<open>insertEvents\<close> and \<^verbatim>\<open>removeEvent\<close> runs on: the state of
  the snapshot rewound to, the merged tail of an insertion, the kept tail of a removal.
\<close>

definition rewind_state :: "('p, 'st, 'x, 'z) EventSource_scheme \<Rightarrow> nat \<Rightarrow> 'st" where
  "rewind_state e i = snapshot_state (getLatestSnapshot (dropSnapshotsAfterEventIndex e i))"

definition merged_tail :: "('p, 'st, 'x, 'z) EventSource_scheme \<Rightarrow> 'p event list \<Rightarrow> 'p event list" where
  "merged_tail e evs =
     mergeSorted (drop (anchor e (insertIndex (events e) evs)) (events e)) evs compareEvents"

definition kept_tail ::
  "('p, 'st, 'x, 'z) EventSource_scheme \<Rightarrow> 'p event \<Rightarrow> nat \<Rightarrow> 'p event list" where
  "kept_tail e ev index =
     filter (\<lambda>a. event_id a \<noteq> event_id ev) (drop (anchor e index) (events e))"

text \<open>
  Further fixtures: the \<^verbatim>\<open>FaultyEventSource\<close> of the tests, whose reducer throws on
  \<^verbatim>\<open>SUBTRACT\<close>, with two events in its log, a batch on which its reducer throws, and
  the engine that the failed insertion of that batch leaves; a run of operations on
  the test engine.
\<close>

definition faulty_engine :: "(TestEvent_payload, CounterState, string) EventSource" where
  "faulty_engine = projr (new_EventSource initial_counter faultyApplyEvent None)"

definition mixed_operations :: "(TestEvent_payload, CounterState, string) operation list" where
  "mixed_operations =
     [Dispatch (createEvent ADD (Some 1) 200 ''b''),
      CreateSnapshot,
      Dispatch (createEvent MULTIPLY (Some 3) 400 ''d''),
      InsertEvents [createEvent ADD (Some 10) 100 ''a'', createEvent ADD (Some 10) 300 ''c''],
      RemoveEvent (createEvent ADD (Some 1) 200 ''b'')]"

definition faulty_engine_with_log :: "(TestEvent_payload, CounterState, string) EventSource" where
  "faulty_engine_with_log =
     projr (dispatchAll faulty_engine
       [createEvent ADD (Some 5) 200 ''b'', createEvent ADD (Some 1) 400 ''d''])"

definition faulty_batch :: "TestEvent_payload event list" where
  "faulty_batch = [createEvent SUBTRACT (Some 1) 300 ''c'']"

definition faulty_engine_after_insert ::
  "(TestEvent_payload, CounterState, string) EventSource" where
  "faulty_engine_after_insert = snd (projl (insertEvents faulty_engine_with_log faulty_batch))"

text \<open>
  A loop of calls of the host's own \<^verbatim>\<open>dispatch(payload)\<close>, with the generated id and
  the clock value of each call given, stopping at the first exception; \<open>n\<close> payloads
  that add 1, with distinct ids; a host with no client, a host with the throwing
  reducer, and a host with a client and a subscriber after 101 dispatches.
\<close>

fun dispatchPayloads ::
  "('p, 'st, 'x, 'z) HostEventSource_scheme \<Rightarrow> (string \<times> int \<times> 'p) list
     \<Rightarrow> ('x, ('p, 'st, 'x, 'z) HostEventSource_scheme) result" where
  "dispatchPayloads h [] = Inr h"
| "dispatchPayloads h ((newId, now, pl) # rest) =
     (case HostEventSource_dispatch (\<lambda>p. True) h newId now pl of
        Inl err \<Rightarrow> Inl err
      | Inr h' \<Rightarrow> dispatchPayloads h' rest)"

definition many_payloads :: "nat \<Rightarrow> (string \<times> int \<times> TestEvent_payload) list" where
  "many_payloads n =
     map (\<lambda>i. ([CHR ''h'', char_of i], 1000 + int i,
               \<lparr>op_type = ADD, op_value = Some 1, newValue = None\<rparr>)) [0..<n]"

definition bare_host :: "(TestEvent_payload, CounterState, string) HostEventSource" where
  "bare_host = new_HostEventSource initial_counter TestEventSource_applyEvent accept_all no_filter"

definition faulty_host :: "(TestEvent_payload, CounterState, string) HostEventSource" where
  "faulty_host = new_HostEventSource initial_counter faultyApplyEvent accept_all no_filter"

definition busy_run ::
  "(string, (TestEvent_payload, CounterState, string) HostEventSource) result" where
  "busy_run =
     dispatchPayloads (fst (subscribe (addClient bare_host ''c1'' 1) quiet_listener))
       (many_payloads 101)"

definition busy_host :: "(TestEvent_payload, CounterState, string) HostEventSource" where
  "busy_host = projr busy_run"

section \<open>Notification\<close>

lemma safeCallback_eq:
  "safeCallback sub st e =
     e\<lparr>invoked := invoked e @ [(fst sub, st)],
       console := console e @ (case snd sub st of None \<Rightarrow> [] | Some x \<Rightarrow> [SubscriberError x])\<rparr>"
  by (simp add: safeCallback_def Let_def split: option.split)

lemma notify_fold:
  "foldl (\<lambda>acc sub. safeCallback sub (state acc) acc) e subs =
     e\<lparr>invoked := invoked e @ notifications subs (state e),
       console := console e @ reported subs (state e)\<rparr>"
proof (induction subs arbitrary: e)
  case Nil
  show ?case by (simp add: notifications_def reported_def)
next
  case (Cons sub subs)
  have "foldl (\<lambda>acc sub. safeCallback sub (state acc) acc) (safeCallback sub (state e) e) subs =
     (safeCallback sub (state e) e)\<lparr>invoked := invoked (safeCallback sub (state e) e)
          @ notifications subs (state (safeCallback sub (state e) e)),
       console := console (safeCallback sub (state e) e)
          @ reported subs (state (safeCallback sub (state e) e))\<rparr>"
    by (rule Cons.IH)
  then show ?case
    by (simp add: safeCallback_eq notifications_def reported_def)
qed

lemma notify_eq:
  "notify e =
     e\<lparr>invoked := invoked e @ notifications (subscribers e) (state e),
       console := console e @ reported (subscribers e) (state e)\<rparr>"
  by (simp add: notify_def notify_fold)

lemma dispatch_eq:
  "dispatch e ev =
     (case applyEvent e (state e) ev of
        Inl x \<Rightarrow> Inl (x, e\<lparr>events := events e @ [ev]\<rparr>)
      | Inr st \<Rightarrow>
          Inr (if snapshotInterval e
                    \<le> int (Suc (length (events e))) - int (eventIndex (getLatestSnapshot e))
               then e\<lparr>events := events e @ [ev], state := st,
                      invoked := invoked e @ notifications (subscribers e) st,
                      console := console e @ reported (subscribers e) st,
                      snapshots := snapshots e @
                        [(next_ref e, \<lparr>snapshot_state = st, eventIndex = Suc (length (events e))\<rparr>)],
                      next_ref := Suc (next_ref e)\<rparr>
               else e\<lparr>events := events e @ [ev], state := st,
                      invoked := invoked e @ notifications (subscribers e) st,
                      console := console e @ reported (subscribers e) st\<rparr>))"
  by (simp add: dispatch_def Let_def notify_eq getLatestSnapshot_def createSnapshot_def
      split: sum.split)

lemma replay_eq:
  "replay e evs =
     (case applyEvents (applyEvent e) (state e) evs of
        Inl (x, st) \<Rightarrow> Inl (x, e\<lparr>state := st\<rparr>)
      | Inr st \<Rightarrow> Inr (e\<lparr>state := st,
                          invoked := invoked e @ notifications (subscribers e) st,
                          console := console e @ reported (subscribers e) st\<rparr>))"
  by (simp add: replay_def notify_eq split: sum.split prod.split)

lemma rebaseline_eq:
  "rebaseline e st =
     e\<lparr>initialState := st, events := [], snapshots := [], state := st,
       invoked := invoked e @ notifications (subscribers e) st,
       console := console e @ reported (subscribers e) st\<rparr>"
  by (simp add: rebaseline_def notify_eq)

text \<open>
  C9. Whichever subscribers throw, a notification pass calls every subscriber once, in
  order, with the same state, and each exception thrown is written to the console;
  the pass changes neither the state, the log nor the snapshots. The transitions
  \<^verbatim>\<open>dispatch\<close> and \<^verbatim>\<open>replay\<close> return normally whenever the reducer does, and
  \<^verbatim>\<open>rebaseline\<close> always does, each having called every subscriber with the new state.
\<close>

theorem listener_isolation:
  "invoked (notify e) = invoked e @ map (\<lambda>sub. (fst sub, state e)) (subscribers e)
   \<and> (\<forall>sub \<in> set (subscribers e). \<forall>x. snd sub (state e) = Some x
         \<longrightarrow> SubscriberError x \<in> set (console (notify e)))
   \<and> state (notify e) = state e \<and> events (notify e) = events e
   \<and> snapshots (notify e) = snapshots e
   \<and> (applyEvent e (state e) ev = Inr st \<longrightarrow>
        (\<exists>e'. dispatch e ev = Inr e' \<and> state e' = st \<and> events e' = events e @ [ev]
           \<and> invoked e' = invoked e @ map (\<lambda>sub. (fst sub, st)) (subscribers e)))
   \<and> (applyEvents (applyEvent e) (state e) evs = Inr st \<longrightarrow>
        (\<exists>e'. replay e evs = Inr e' \<and> state e' = st
           \<and> invoked e' = invoked e @ map (\<lambda>sub. (fst sub, st)) (subscribers e)))
   \<and> invoked (rebaseline e st) = invoked e @ map (\<lambda>sub. (fst sub, st)) (subscribers e)"
proof -
  have rep: "\<forall>sub \<in> set (subscribers e). \<forall>x. snd sub (state e) = Some x
         \<longrightarrow> SubscriberError x \<in> set (console (notify e))"
    by (force simp: notify_eq reported_def)
  show ?thesis
    using rep
    by (simp add: notify_eq dispatch_eq replay_eq rebaseline_eq notifications_def)
qed

theorem listener_isolation_witness:
  "map fst (subscribers listening_engine) = [0, 1]
   \<and> snd (subscribers listening_engine ! 0) (state listening_engine) = Some ''Subscriber error''
   \<and> applyEvent listening_engine (state listening_engine) (createEvent ADD (Some 1) 1000 ''a'')
       = Inr \<lparr>count = 1, lastOperationType = Some ''ADD''\<rparr>
   \<and> (\<exists>e'. dispatch listening_engine (createEvent ADD (Some 1) 1000 ''a'') = Inr e'
         \<and> state e' = \<lparr>count = 1, lastOperationType = Some ''ADD''\<rparr>
         \<and> events e' = events listening_engine @ [createEvent ADD (Some 1) 1000 ''a'']
         \<and> invoked e' = invoked listening_engine @
              map (\<lambda>sub. (fst sub, \<lparr>count = 1, lastOperationType = Some ''ADD''\<rparr>))
                (subscribers listening_engine))"
proof -
  have subs: "map fst (subscribers listening_engine) = [0, 1]"
    by code_simp
  have throws:
    "snd (subscribers listening_engine ! 0) (state listening_engine) = Some ''Subscriber error''"
    by code_simp
  have red: "applyEvent listening_engine (state listening_engine)
      (createEvent ADD (Some 1) 1000 ''a'') = Inr \<lparr>count = 1, lastOperationType = Some ''ADD''\<rparr>"
    by code_simp
  from listener_isolation [of listening_engine "createEvent ADD (Some 1) 1000 ''a''"
      "\<lparr>count = 1, lastOperationType = Some ''ADD''\<rparr>" "[]"] red
  have "\<exists>e'. dispatch listening_engine (createEvent ADD (Some 1) 1000 ''a'') = Inr e'
         \<and> state e' = \<lparr>count = 1, lastOperationType = Some ''ADD''\<rparr>
         \<and> events e' = events listening_engine @ [createEvent ADD (Some 1) 1000 ''a'']
         \<and> invoked e' = invoked listening_engine @
              map (\<lambda>sub. (fst sub, \<lparr>count = 1, lastOperationType = Some ''ADD''\<rparr>))
                (subscribers listening_engine)"
    by blast
  with subs throws red show ?thesis by blast
qed

section \<open>The auto-snapshot policy\<close>

lemma applyEvents_append:
  "applyEvents ap st (xs @ ys) =
     (case applyEvents ap st xs of Inl err \<Rightarrow> Inl err | Inr st' \<Rightarrow> applyEvents ap st' ys)"
  by (induction xs arbitrary: st) (auto split: sum.splits)

lemma dispatchAll_append:
  "dispatchAll e (xs @ ys) =
     (case dispatchAll e xs of Inl err \<Rightarrow> Inl err | Inr e' \<Rightarrow> dispatchAll e' ys)"
  by (induction xs arbitrary: e) (auto split: sum.splits)

lemma schedule_latest:
  assumes "map snd (snapshots e) =
      map (\<lambda>k. \<lparr>snapshot_state = f k, eventIndex = k * s\<rparr>) [1..<Suc m]"
  shows "eventIndex (getLatestSnapshot e) = m * s"
proof (cases m)
  case 0
  with assms show ?thesis by (simp add: getLatestSnapshot_def)
next
  case (Suc m')
  have "length (map snd (snapshots e)) =
      length (map (\<lambda>k. \<lparr>snapshot_state = f k, eventIndex = k * s\<rparr>) [1..<Suc m])"
    by (simp only: assms)
  then have len: "length (snapshots e) = m"
    by simp
  with Suc have ne: "length (snapshots e) \<noteq> 0" by simp
  have "snd (snapshots e ! (m - 1)) = map snd (snapshots e) ! (m - 1)"
    using len Suc by simp
  also have "\<dots> = \<lparr>snapshot_state = f m, eventIndex = m * s\<rparr>"
    using Suc by (simp add: assms nth_append del: upt_Suc)
  finally show ?thesis
    using ne len by (simp add: getLatestSnapshot_def)
qed

lemma snapshot_due:
  assumes "0 < s"
  shows "(int s \<le> int (Suc n) - int (n div s * s)) = (Suc n mod s = 0)"
proof -
  have "int (n div s * s + n mod s) = int n" by simp
  then have "int (n div s * s) + int (n mod s) = int n"
    unfolding of_nat_add .
  then have "int (Suc n) - int (n div s * s) = int (Suc (n mod s))"
    by simp
  moreover have "n mod s < s" using assms by simp
  ultimately show ?thesis
    by (auto simp: mod_Suc)
qed


lemma dispatchAll_schedule:
  assumes fresh: "events e0 = []" "snapshots e0 = []" "state e0 = initialState e0"
    and interval: "snapshotInterval e0 = int s" "0 < s"
    and run: "dispatchAll e0 evs = Inr e"
  shows "events e = evs
    \<and> applyEvents (applyEvent e0) (initialState e0) evs = Inr (state e)
    \<and> map snd (snapshots e) =
         map (\<lambda>k. \<lparr>snapshot_state = replayed (applyEvent e0) (initialState e0) (take (k * s) evs),
                    eventIndex = k * s\<rparr>) [1..<Suc (length evs div s)]
    \<and> applyEvent e = applyEvent e0 \<and> initialState e = initialState e0
    \<and> snapshotInterval e = int s"
  using run
proof (induction evs arbitrary: e rule: rev_induct)
  case Nil
  then show ?case using fresh interval by auto
next
  case (snoc x xs)
  let ?ap = "applyEvent e0" and ?init = "initialState e0"
  let ?n = "length xs"
  let ?f = "\<lambda>evs k. \<lparr>snapshot_state = replayed ?ap ?init (take (k * s) evs), eventIndex = k * s\<rparr>"
  from snoc.prems obtain e1 where e1: "dispatchAll e0 xs = Inr e1" and step: "dispatch e1 x = Inr e"
    by (auto simp: dispatchAll_append split: sum.splits)
  note IH = snoc.IH [OF e1]
  from IH have ev1: "events e1 = xs" and st1: "applyEvents ?ap ?init xs = Inr (state e1)"
    and sn1: "map snd (snapshots e1) = map (?f xs) [1..<Suc (?n div s)]"
    and ap1: "applyEvent e1 = ?ap" and in1: "initialState e1 = ?init"
    and iv1: "snapshotInterval e1 = int s"
    by simp_all
  have latest: "eventIndex (getLatestSnapshot e1) = ?n div s * s"
    using sn1 by (rule schedule_latest)
  from step obtain st where st: "?ap (state e1) x = Inr st"
    by (auto simp: dispatch_eq ap1 split: sum.splits)
  have full: "applyEvents ?ap ?init (xs @ [x]) = Inr st"
    by (simp add: applyEvents_append st1 st)
  have old: "map (?f (xs @ [x])) [1..<Suc (?n div s)] = map (?f xs) [1..<Suc (?n div s)]"
  proof (rule map_cong [OF refl])
    fix k assume "k \<in> set [1..<Suc (?n div s)]"
    then have "k \<le> ?n div s" by (simp del: upt_Suc)
    then have "k * s \<le> ?n div s * s" by simp
    also have "\<dots> \<le> ?n" by simp
    finally show "?f (xs @ [x]) k = ?f xs k" by simp
  qed
  show ?case
  proof (cases "Suc ?n mod s = 0")
    case True
    then have due: "snapshotInterval e1 \<le> int (Suc (length (events e1))) - int (eventIndex (getLatestSnapshot e1))"
      using snapshot_due [OF interval(2), of ?n] by (simp add: iv1 ev1 latest)
    from True have q: "Suc ?n div s = Suc (?n div s)"
      by (simp add: div_Suc)
    from True have "Suc ?n = Suc ?n div s * s"
      by (metis add.right_neutral div_mult_mod_eq)
    with q have whole: "Suc (?n div s) * s = Suc ?n" by simp
    have new: "?f (xs @ [x]) (Suc (?n div s)) = \<lparr>snapshot_state = st, eventIndex = Suc ?n\<rparr>"
      by (simp only: whole) (simp add: replayed_def full)
    from step st due have e: "e = e1\<lparr>events := events e1 @ [x], state := st,
                      invoked := invoked e1 @ notifications (subscribers e1) st,
                      console := console e1 @ reported (subscribers e1) st,
                      snapshots := snapshots e1 @
                        [(next_ref e1, \<lparr>snapshot_state = st, eventIndex = Suc (length (events e1))\<rparr>)],
                      next_ref := Suc (next_ref e1)\<rparr>"
      by (simp add: dispatch_eq ap1)
    have "map snd (snapshots e) = map (?f xs) [1..<Suc (?n div s)] @ [\<lparr>snapshot_state = st, eventIndex = Suc ?n\<rparr>]"
      by (simp add: e sn1 ev1)
    also have "\<dots> = map (?f (xs @ [x])) [1..<Suc (?n div s)] @ [?f (xs @ [x]) (Suc (?n div s))]"
      by (simp only: old new)
    also have "\<dots> = map (?f (xs @ [x])) ([1..<Suc (?n div s)] @ [Suc (?n div s)])"
      by (simp only: map_append list.map)
    also have "[1..<Suc (?n div s)] @ [Suc (?n div s)] = [1..<Suc (Suc ?n div s)]"
      unfolding q by (rule upt_Suc_append [symmetric]) simp
    finally show ?thesis
      using full by (simp add: e ev1 ap1 in1 iv1)
  next
    case False
    then have due: "\<not> snapshotInterval e1 \<le> int (Suc (length (events e1))) - int (eventIndex (getLatestSnapshot e1))"
      using snapshot_due [OF interval(2), of ?n] by (simp add: iv1 ev1 latest)
    from False have q: "Suc ?n div s = ?n div s"
      by (simp add: div_Suc)
    from step st due have e: "e = e1\<lparr>events := events e1 @ [x], state := st,
                      invoked := invoked e1 @ notifications (subscribers e1) st,
                      console := console e1 @ reported (subscribers e1) st\<rparr>"
      by (simp add: dispatch_eq ap1)
    have "map snd (snapshots e) = map (?f (xs @ [x])) [1..<Suc (Suc ?n div s)]"
      by (simp only: q old) (simp add: e sn1)
    then show ?thesis
      using full by (simp add: e ev1 ap1 in1 iv1)
  qed
qed


lemma dispatch_fields:
  assumes "dispatch e ev = Inr e'"
  shows "applyEvent e (state e) ev = Inr (state e')"
    and "events e' = events e @ [ev]"
    and "applyEvent e' = applyEvent e"
    and "initialState e' = initialState e"
    and "snapshotInterval e' = snapshotInterval e"
    and "subscribers e' = subscribers e"
    and "snapshots e' =
      (if snapshotInterval e \<le> int (Suc (length (events e))) - int (eventIndex (getLatestSnapshot e))
       then snapshots e @
              [(next_ref e, \<lparr>snapshot_state = state e', eventIndex = Suc (length (events e))\<rparr>)]
       else snapshots e)"
  using assms by (auto simp: dispatch_eq split: sum.splits if_splits)

lemma dispatchAll_returns:
  "applyEvents (applyEvent e) (state e) evs = Inr st \<Longrightarrow> \<exists>e'. dispatchAll e evs = Inr e'"
proof (induction evs arbitrary: e)
  case Nil
  show ?case by simp
next
  case (Cons ev evs)
  from Cons.prems obtain s1 where s1: "applyEvent e (state e) ev = Inr s1"
    and rest: "applyEvents (applyEvent e) s1 evs = Inr st"
    by (auto split: sum.splits)
  from s1 obtain e1 where e1: "dispatch e ev = Inr e1"
    by (auto simp: dispatch_eq)
  from dispatch_fields(1,3) [OF e1] s1 have "state e1 = s1" "applyEvent e1 = applyEvent e"
    by simp_all
  with rest Cons.IH [of e1] obtain e' where "dispatchAll e1 evs = Inr e'"
    by auto
  with e1 show ?case by simp
qed

text \<open>
  C7. A fresh engine with the snapshot interval \<open>s\<close> (100 when none is given) is sent the
  events \<open>evs\<close> by tail dispatches, the reducer succeeding on all of them. Then the
  dispatches all return, the log is \<open>evs\<close>, the state is their replay, and the snapshots
  are exactly the pairs (replay of the first \<open>k * s\<close> events, \<open>k * s\<close>) for \<open>k\<close> from 1 to
  \<open>length evs div s\<close>. A further dispatch creates a snapshot exactly when the new log
  length minus the latest snapshot's index equals \<open>s\<close>, and that snapshot records the
  new state and the new log length. With the default interval and 100 events there is
  exactly one snapshot: the replay of the 100 events, at index 100.
\<close>

theorem auto_snapshot_policy:
  assumes "new_EventSource init ap opt = Inr e0" and "applyEvents ap init evs = Inr st"
  shows "\<exists>e. dispatchAll e0 evs = Inr e \<and> getState e = st \<and> events e = evs
    \<and> snapshotInterval e = (case opt of None \<Rightarrow> 100 | Some i \<Rightarrow> i)
    \<and> map snd (snapshots e) =
         map (\<lambda>k. \<lparr>snapshot_state = replayed ap init (take (k * nat (snapshotInterval e)) evs),
                    eventIndex = k * nat (snapshotInterval e)\<rparr>)
           [1..<Suc (length evs div nat (snapshotInterval e))]
    \<and> (\<forall>ev e'. dispatch e ev = Inr e' \<longrightarrow>
          (if int (length (events e')) - int (eventIndex (getLatestSnapshot e)) = snapshotInterval e
           then map snd (snapshots e') = map snd (snapshots e) @
                  [\<lparr>snapshot_state = getState e', eventIndex = length (events e')\<rparr>]
           else snapshots e' = snapshots e))
    \<and> (opt = None \<and> length evs = 100 \<longrightarrow>
          map snd (snapshots e) = [\<lparr>snapshot_state = st, eventIndex = 100\<rparr>])"
proof -
  define s where "s = nat (case opt of None \<Rightarrow> 100 | Some i \<Rightarrow> i)"
  from assms(1) have pos: "0 < s" and iv0: "snapshotInterval e0 = int s"
    and fresh: "events e0 = []" "snapshots e0 = []" "state e0 = initialState e0"
    and ap0: "applyEvent e0 = ap" and in0: "initialState e0 = init"
    by (auto simp: new_EventSource_def s_def default_snapshotInterval_def Let_def
        split: option.splits if_splits)
  from assms(2) have "applyEvents (applyEvent e0) (state e0) evs = Inr st"
    by (simp add: ap0 fresh in0)
  from dispatchAll_returns [OF this] obtain e where run: "dispatchAll e0 evs = Inr e" ..
  note sched = dispatchAll_schedule [OF fresh iv0 pos run, unfolded ap0 in0]
  from sched have ev: "events e = evs" and st: "applyEvents ap init evs = Inr (state e)"
    and sn: "map snd (snapshots e) =
         map (\<lambda>k. \<lparr>snapshot_state = replayed ap init (take (k * s) evs), eventIndex = k * s\<rparr>)
           [1..<Suc (length evs div s)]"
    and iv: "snapshotInterval e = int s"
    by simp_all
  from st assms(2) have ste: "state e = st" by simp
  have ivs: "nat (snapshotInterval e) = s" by (simp add: iv)
  have c1: "snapshotInterval e = (case opt of None \<Rightarrow> 100 | Some i \<Rightarrow> i)"
    using pos by (simp add: iv s_def split: option.splits)
  have latest: "eventIndex (getLatestSnapshot e) = length evs div s * s"
    using sn by (rule schedule_latest)
  have "int (length evs div s * s + length evs mod s) = int (length evs)" by simp
  then have "int (length evs div s * s) + int (length evs mod s) = int (length evs)"
    unfolding of_nat_add .
  moreover have "length evs mod s < s" using pos by simp
  ultimately have bound:
    "int (Suc (length (events e))) - int (eventIndex (getLatestSnapshot e)) \<le> snapshotInterval e"
    by (simp add: ev latest iv)
  have step: "\<forall>ev e'. dispatch e ev = Inr e' \<longrightarrow>
          (if int (length (events e')) - int (eventIndex (getLatestSnapshot e)) = snapshotInterval e
           then map snd (snapshots e') = map snd (snapshots e) @
                  [\<lparr>snapshot_state = getState e', eventIndex = length (events e')\<rparr>]
           else snapshots e' = snapshots e)"
  proof (intro allI impI)
    fix ev e' assume d: "dispatch e ev = Inr e'"
    note f = dispatch_fields(2,7) [OF d]
    have len: "length (events e') = Suc (length (events e))"
      by (simp add: f(1))
    show "if int (length (events e')) - int (eventIndex (getLatestSnapshot e)) = snapshotInterval e
           then map snd (snapshots e') = map snd (snapshots e) @
                  [\<lparr>snapshot_state = getState e', eventIndex = length (events e')\<rparr>]
           else snapshots e' = snapshots e"
    proof (cases "int (Suc (length (events e))) - int (eventIndex (getLatestSnapshot e)) = snapshotInterval e")
      case True
      then show ?thesis by (simp add: f(2) len getState_def)
    next
      case False
      with bound have "\<not> snapshotInterval e
          \<le> int (Suc (length (events e))) - int (eventIndex (getLatestSnapshot e))"
        by linarith
      with False show ?thesis by (simp add: f(2) len)
    qed
  qed
  have hundred: "opt = None \<and> length evs = 100 \<longrightarrow>
          map snd (snapshots e) = [\<lparr>snapshot_state = st, eventIndex = 100\<rparr>]"
  proof
    assume h: "opt = None \<and> length evs = 100"
    then have s100: "s = 100" by (simp add: s_def)
    have "[1..<Suc (100 div 100)] = [1::nat]" by simp
    with h show "map snd (snapshots e) = [\<lparr>snapshot_state = st, eventIndex = 100\<rparr>]"
      by (simp add: sn s100 replayed_def assms(2))
  qed
  have ges: "getState e = st" by (simp add: getState_def ste)
  have sn': "map snd (snapshots e) =
         map (\<lambda>k. \<lparr>snapshot_state = replayed ap init (take (k * nat (snapshotInterval e)) evs),
                    eventIndex = k * nat (snapshotInterval e)\<rparr>)
           [1..<Suc (length evs div nat (snapshotInterval e))]"
    using sn by (simp only: ivs)
  show ?thesis
    by (intro exI [of _ e] conjI) (fact run ges ev c1 sn' step hundred)+
qed

theorem auto_snapshot_policy_witness:
  "new_EventSource initial_counter TestEventSource_applyEvent None = Inr test_engine
   \<and> applyEvents TestEventSource_applyEvent initial_counter hundred_events
       = Inr \<lparr>count = 100, lastOperationType = Some ''ADD''\<rparr>
   \<and> length hundred_events = 100
   \<and> (\<exists>e. dispatchAll test_engine hundred_events = Inr e
         \<and> getState e = \<lparr>count = 100, lastOperationType = Some ''ADD''\<rparr>
         \<and> map snd (snapshots e) =
             [\<lparr>snapshot_state = \<lparr>count = 100, lastOperationType = Some ''ADD''\<rparr>,
               eventIndex = 100\<rparr>])"
proof -
  have new: "new_EventSource initial_counter TestEventSource_applyEvent None = Inr test_engine"
    by (simp add: test_engine_def new_EventSource_def default_snapshotInterval_def)
  have run: "applyEvents TestEventSource_applyEvent initial_counter hundred_events
       = Inr \<lparr>count = 100, lastOperationType = Some ''ADD''\<rparr>"
    by code_simp
  have len: "length hundred_events = 100"
    by (simp add: hundred_events_def)
  from auto_snapshot_policy [OF new run] len
  have "\<exists>e. dispatchAll test_engine hundred_events = Inr e
         \<and> getState e = \<lparr>count = 100, lastOperationType = Some ''ADD''\<rparr>
         \<and> map snd (snapshots e) =
             [\<lparr>snapshot_state = \<lparr>count = 100, lastOperationType = Some ''ADD''\<rparr>,
               eventIndex = 100\<rparr>]"
    by auto
  with new run len show ?thesis by blast
qed

section \<open>Rewinding to a snapshot\<close>

lemma dropSnapshots_eq:
  "dropSnapshotsAfterEventIndex e i = e\<lparr>snapshots := retained i (snapshots e)\<rparr>"
  unfolding retained_def
proof (induction e i rule: dropSnapshotsAfterEventIndex.induct)
  case (1 e i)
  show ?case
  proof (cases "i < eventIndex (getLatestSnapshot e)")
    case True
    then have ne: "snapshots e \<noteq> []"
      by (auto simp: getLatestSnapshot_def)
    then obtain xs x where sx: "snapshots e = xs @ [x]"
      by (cases "snapshots e" rule: rev_cases) auto
    from True sx have px: "i < eventIndex (snd x)"
      by (simp add: getLatestSnapshot_def)
    have "dropSnapshotsAfterEventIndex e i = dropSnapshotsAfterEventIndex (dropLatestSnapshot e) i"
      using True by (subst dropSnapshotsAfterEventIndex.simps) simp
    also have "\<dots> = (dropLatestSnapshot e)\<lparr>snapshots :=
        rev (dropWhile (\<lambda>s. i < eventIndex (snd s)) (rev (snapshots (dropLatestSnapshot e))))\<rparr>"
      using "1.IH" True by simp
    finally show ?thesis
      using sx px by (simp add: dropLatestSnapshot_def)
  next
    case False
    then have "dropSnapshotsAfterEventIndex e i = e"
      by (subst dropSnapshotsAfterEventIndex.simps) simp
    moreover have "rev (dropWhile (\<lambda>s. i < eventIndex (snd s)) (rev (snapshots e))) = snapshots e"
    proof (cases "snapshots e" rule: rev_cases)
      case Nil
      then show ?thesis by simp
    next
      case (snoc xs x)
      with False show ?thesis by (simp add: getLatestSnapshot_def)
    qed
    ultimately show ?thesis by simp
  qed
qed

lemma retained_take: "\<exists>n. retained i snaps = take n snaps"
proof -
  have "retained i snaps =
      rev (drop (length (takeWhile (\<lambda>s. i < eventIndex (snd s)) (rev snaps))) (rev snaps))"
    by (simp add: retained_def dropWhile_eq_drop)
  also have "\<dots> = take (length snaps - length (takeWhile (\<lambda>s. i < eventIndex (snd s)) (rev snaps))) snaps"
    by (simp add: rev_drop)
  finally show ?thesis by blast
qed

lemma retained_subset: "set (retained i snaps) \<subseteq> set snaps"
  using retained_take [of i snaps] by (auto dest: in_set_takeD)

lemma retained_sorted:
  "sorted (map (eventIndex \<circ> snd) snaps) \<Longrightarrow> sorted (map (eventIndex \<circ> snd) (retained i snaps))"
proof -
  assume s: "sorted (map (eventIndex \<circ> snd) snaps)"
  obtain n where n: "retained i snaps = take n snaps"
    using retained_take by blast
  from s have "sorted (take n (map (eventIndex \<circ> snd) snaps))"
    by (rule sorted_wrt_take)
  then show ?thesis by (simp add: n take_map)
qed

lemma retained_last:
  "retained i snaps \<noteq> [] \<Longrightarrow> eventIndex (snd (last (retained i snaps))) \<le> i"
proof -
  assume ne: "retained i snaps \<noteq> []"
  let ?d = "dropWhile (\<lambda>s. i < eventIndex (snd s)) (rev snaps)"
  from ne have d: "?d \<noteq> []" by (simp add: retained_def)
  then have "\<not> i < eventIndex (snd (hd ?d))" by (rule hd_dropWhile)
  moreover have "last (retained i snaps) = hd ?d"
    using d by (simp add: retained_def last_rev)
  ultimately show ?thesis by simp
qed

lemma getLatestSnapshot_last:
  "getLatestSnapshot e =
     (if snapshots e = [] then \<lparr>snapshot_state = initialState e, eventIndex = 0\<rparr>
      else snd (last (snapshots e)))"
  by (simp add: getLatestSnapshot_def last_conv_nth)

lemma anchor_le: "anchor e i \<le> i"
  using retained_last [of i "snapshots e"]
  by (simp add: anchor_def dropSnapshots_eq getLatestSnapshot_last)

lemma sorted_last_max:
  assumes "sorted (map f xs)" and "x \<in> set xs"
  shows "f x \<le> f (last xs)"
proof -
  from assms(2) have ne: "xs \<noteq> []" by auto
  then have xs: "xs = butlast xs @ [last xs]" by simp
  from assms(1) have "sorted (map f (butlast xs @ [last xs]))"
    using xs by simp
  then have "\<forall>y \<in> set (butlast xs). f y \<le> f (last xs)"
    by (simp add: sorted_append)
  moreover from assms(2) xs have "x \<in> set (butlast xs) \<or> x = last xs"
    by (metis Un_iff insert_iff list.set(2) set_append empty_iff list.set(1))
  ultimately show ?thesis by auto
qed


lemma rewound_fields:
  "events (rewound e i tail) = take (anchor e i) (events e) @ tail"
  "snapshots (rewound e i tail) = retained i (snapshots e)"
  "applyEvent (rewound e i tail) = applyEvent e"
  "initialState (rewound e i tail) = initialState e"
  "subscribers (rewound e i tail) = subscribers e"
  "invoked (rewound e i tail) = invoked e"
  "state (rewound e i tail) =
     snapshot_state (getLatestSnapshot (dropSnapshotsAfterEventIndex e i))"
  by (simp_all add: rewound_def anchor_def Let_def dropSnapshots_eq)

lemma rewound_alt:
  "rewound e i tail =
     (let e1 = dropSnapshotsAfterEventIndex e i; sn = getLatestSnapshot e1
      in e1\<lparr>state := snapshot_state sn, events := take (eventIndex sn) (events e) @ tail\<rparr>)"
  by (simp add: rewound_def Let_def)

lemma removeEvent_eq:
  "removeEvent e ev =
     (case findIndex (\<lambda>x. event_id x = event_id ev) (events e) of
        None \<Rightarrow> Inr e
      | Some index \<Rightarrow>
          replay (rewound e index
                    (filter (\<lambda>x. event_id x \<noteq> event_id ev) (drop (anchor e index) (events e))))
            (filter (\<lambda>x. event_id x \<noteq> event_id ev) (drop (anchor e index) (events e))))"
  by (simp add: removeEvent_def rewound_alt anchor_def Let_def dropSnapshots_eq
      split: option.split)

lemma insertEvents_eq:
  "insertEvents e evs =
     (if evs = [] then Inr e
      else replay (rewound e (insertIndex (events e) evs)
                     (mergeSorted (drop (anchor e (insertIndex (events e) evs)) (events e)) evs
                        compareEvents))
             (mergeSorted (drop (anchor e (insertIndex (events e) evs)) (events e)) evs
                compareEvents))"
  by (simp add: insertEvents_def rewound_alt anchor_def insertIndex_def Let_def dropSnapshots_eq
      rollbackToSnapshotSilent_def)

lemma anchor_sound:
  assumes "engine_inv e"
  shows "anchor e i \<le> length (events e)"
    and "applyEvents (applyEvent e) (initialState e) (take (anchor e i) (events e))
           = Inr (snapshot_state (getLatestSnapshot (dropSnapshotsAfterEventIndex e i)))"
proof -
  let ?R = "retained i (snapshots e)"
  have "anchor e i \<le> length (events e) \<and>
    applyEvents (applyEvent e) (initialState e) (take (anchor e i) (events e))
           = Inr (snapshot_state (getLatestSnapshot (dropSnapshotsAfterEventIndex e i)))"
  proof (cases "?R = []")
    case True
    then show ?thesis
      by (simp add: anchor_def dropSnapshots_eq getLatestSnapshot_last)
  next
    case False
    then have "last ?R \<in> set (snapshots e)"
      using retained_subset [of i "snapshots e"] last_in_set by blast
    with assms have "snapshot_sound e (snd (last ?R))"
      by (simp add: engine_inv_def)
    with False show ?thesis
      by (simp add: anchor_def dropSnapshots_eq getLatestSnapshot_last snapshot_sound_def)
  qed
  then show "anchor e i \<le> length (events e)"
    and "applyEvents (applyEvent e) (initialState e) (take (anchor e i) (events e))
           = Inr (snapshot_state (getLatestSnapshot (dropSnapshotsAfterEventIndex e i)))"
    by simp_all
qed

lemma retained_below_anchor:
  assumes "sorted (map (eventIndex \<circ> snd) (snapshots e))" and "sn \<in> set (retained i (snapshots e))"
  shows "eventIndex (snd sn) \<le> anchor e i"
proof -
  let ?R = "retained i (snapshots e)"
  from assms(1) have "sorted (map (eventIndex \<circ> snd) ?R)"
    by (rule retained_sorted)
  from sorted_last_max [OF this assms(2)] have "eventIndex (snd sn) \<le> eventIndex (snd (last ?R))"
    by simp
  moreover from assms(2) have "?R \<noteq> []" by auto
  ultimately show ?thesis
    by (simp add: anchor_def dropSnapshots_eq getLatestSnapshot_last)
qed

lemma rewound_replay_inv:
  assumes inv: "engine_inv e" and rep: "replay (rewound e i tail) tail = Inr e'"
  shows "engine_inv e'"
proof -
  let ?k = "anchor e i"
  let ?sn = "getLatestSnapshot (dropSnapshotsAfterEventIndex e i)"
  note k = anchor_sound [OF inv, of i]
  from rep obtain st where st: "applyEvents (applyEvent e) (snapshot_state ?sn) tail = Inr st"
    and e': "e' = (rewound e i tail)\<lparr>state := st,
        invoked := invoked e @ notifications (subscribers e) st,
        console := console (rewound e i tail) @ reported (subscribers e) st\<rparr>"
    by (auto simp: replay_eq rewound_fields split: sum.splits)
  have ev: "events e' = take ?k (events e) @ tail" and sn: "snapshots e' = retained i (snapshots e)"
    and ap: "applyEvent e' = applyEvent e" and init: "initialState e' = initialState e"
    and ste: "state e' = st"
    by (simp_all add: e' rewound_fields)
  have i2: "applyEvents (applyEvent e') (initialState e') (events e') = Inr (state e')"
    by (simp add: ev ap init ste applyEvents_append k(2) st)
  have i3: "\<forall>s \<in> set (snapshots e'). snapshot_sound e' (snd s)"
  proof
    fix s assume "s \<in> set (snapshots e')"
    then have r: "s \<in> set (retained i (snapshots e))" by (simp add: sn)
    with retained_subset have "s \<in> set (snapshots e)" by blast
    with inv have sound: "snapshot_sound e (snd s)" by (simp add: engine_inv_def)
    from inv have "sorted (map (eventIndex \<circ> snd) (snapshots e))" by (simp add: engine_inv_def)
    from retained_below_anchor [OF this r] have le: "eventIndex (snd s) \<le> ?k" .
    with k(1) sound show "snapshot_sound e' (snd s)"
      by (simp add: snapshot_sound_def ev ap init min_absorb2)
  qed
  from inv have "sorted (map (eventIndex \<circ> snd) (snapshots e'))"
    by (simp add: sn engine_inv_def retained_sorted)
  with i2 i3 show ?thesis by (simp add: engine_inv_def)
qed

lemma length_mergeSorted: "length (mergeSorted xs ys c) = length xs + length ys"
  by (induction xs ys c rule: mergeSorted.induct) auto

lemma set_mergeSorted: "set (mergeSorted xs ys c) = set xs \<union> set ys"
  by (induction xs ys c rule: mergeSorted.induct) auto

lemma findIndex_None: "findIndex P xs = None \<Longrightarrow> \<forall>x \<in> set xs. \<not> P x"
  by (induction xs) (auto split: if_splits option.splits)

lemma findIndex_Some:
  "findIndex P xs = Some i \<Longrightarrow> i < length xs \<and> P (xs ! i) \<and> (\<forall>x \<in> set (take i xs). \<not> P x)"
proof (induction xs arbitrary: i)
  case Nil
  then show ?case by simp
next
  case (Cons x xs)
  show ?case
  proof (cases "P x")
    case True
    with Cons.prems show ?thesis by simp
  next
    case False
    with Cons.prems obtain j where j: "findIndex P xs = Some j" and i: "i = Suc j"
      by (auto split: option.splits)
    from Cons.IH [OF j] False show ?thesis by (simp add: i)
  qed
qed

lemma findIndex_found: "x \<in> set xs \<Longrightarrow> P x \<Longrightarrow> findIndex P xs \<noteq> None"
  using findIndex_None by fastforce

lemma replay_events:
  "replay e evs = Inr e' \<or> replay e evs = Inl (x, e') \<Longrightarrow>
     events e' = events e \<and> snapshots e' = snapshots e"
  by (auto simp: replay_eq split: sum.splits prod.splits)

lemma removeEvent_log:
  assumes "removeEvent e ev = Inr e' \<or> removeEvent e ev = Inl (x, e')"
  shows "events e' = filter (\<lambda>a. event_id a \<noteq> event_id ev) (events e)"
proof (cases "findIndex (\<lambda>a. event_id a = event_id ev) (events e)")
  case None
  from findIndex_None [OF None] have "filter (\<lambda>a. event_id a \<noteq> event_id ev) (events e) = events e"
    by (simp add: filter_id_conv)
  with assms None show ?thesis by (simp add: removeEvent_eq)
next
  case (Some index)
  let ?k = "anchor e index"
  let ?keep = "filter (\<lambda>a. event_id a \<noteq> event_id ev) (drop ?k (events e))"
  from assms Some have "replay (rewound e index ?keep) ?keep = Inr e'
      \<or> replay (rewound e index ?keep) ?keep = Inl (x, e')"
    by (simp add: removeEvent_eq)
  from replay_events [OF this] have ev: "events e' = take ?k (events e) @ ?keep"
    by (simp add: rewound_fields)
  have "?k \<le> index" by (rule anchor_le)
  then have "set (take ?k (events e)) \<subseteq> set (take index (events e))"
    by (rule set_take_subset_set_take)
  with findIndex_Some [OF Some] have "\<forall>a \<in> set (take ?k (events e)). event_id a \<noteq> event_id ev"
    by blast
  then have "filter (\<lambda>a. event_id a \<noteq> event_id ev) (take ?k (events e)) = take ?k (events e)"
    by (simp add: filter_id_conv)
  then have "take ?k (events e) @ ?keep
      = filter (\<lambda>a. event_id a \<noteq> event_id ev) (take ?k (events e) @ drop ?k (events e))"
    by (simp only: filter_append)
  with ev show ?thesis by simp
qed

lemma applyEvents_thrown:
  "applyEvents ap st evs = Inl (x, st') \<Longrightarrow> \<exists>ev \<in> set evs. ap st' ev = Inl x"
  by (induction evs arbitrary: st) (auto split: sum.splits)

section \<open>The state is the replay of the log\<close>

lemma inv_frame:
  assumes "engine_inv e" and "events e' = events e" and "state e' = state e"
    and "snapshots e' = snapshots e" and "applyEvent e' = applyEvent e"
    and "initialState e' = initialState e"
  shows "engine_inv e'"
  using assms by (simp add: engine_inv_def snapshot_sound_def)

lemma inv_new: "new_EventSource init ap opt = Inr e \<Longrightarrow> engine_inv e"
  by (auto simp: new_EventSource_def engine_inv_def Let_def split: if_splits)

lemma inv_push_snapshot:
  assumes "engine_inv e"
  shows "engine_inv (e\<lparr>snapshots := snapshots e @
      [(r, \<lparr>snapshot_state = state e, eventIndex = length (events e)\<rparr>)]\<rparr>)"
proof -
  from assms have "\<forall>sn \<in> set (snapshots e). eventIndex (snd sn) \<le> length (events e)"
    by (simp add: engine_inv_def snapshot_sound_def)
  with assms show ?thesis
    by (auto simp: engine_inv_def snapshot_sound_def sorted_append)
qed

lemma inv_append_event:
  assumes "engine_inv e" and "applyEvent e (state e) ev = Inr st"
  shows "engine_inv (e\<lparr>events := events e @ [ev], state := st\<rparr>)"
  using assms by (auto simp: engine_inv_def snapshot_sound_def applyEvents_append)

lemma inv_dispatch:
  assumes "engine_inv e" and "dispatch e ev = Inr e'"
  shows "engine_inv e'"
proof -
  from assms(2) obtain st where st: "applyEvent e (state e) ev = Inr st"
    by (auto simp: dispatch_eq split: sum.splits)
  let ?e1 = "e\<lparr>events := events e @ [ev], state := st\<rparr>"
  have i1: "engine_inv ?e1" using assms(1) st by (rule inv_append_event)
  show ?thesis
  proof (cases "snapshotInterval e
      \<le> int (Suc (length (events e))) - int (eventIndex (getLatestSnapshot e))")
    case True
    have "engine_inv (?e1\<lparr>snapshots := snapshots ?e1 @
      [(next_ref e, \<lparr>snapshot_state = state ?e1, eventIndex = length (events ?e1)\<rparr>)]\<rparr>)"
      using i1 by (rule inv_push_snapshot)
    moreover from assms(2) st True have "e' = e\<lparr>events := events e @ [ev], state := st,
                      invoked := invoked e @ notifications (subscribers e) st,
                      console := console e @ reported (subscribers e) st,
                      snapshots := snapshots e @
                        [(next_ref e, \<lparr>snapshot_state = st, eventIndex = Suc (length (events e))\<rparr>)],
                      next_ref := Suc (next_ref e)\<rparr>"
      by (simp add: dispatch_eq)
    ultimately show ?thesis
      by (elim inv_frame) simp_all
  next
    case False
    with assms(2) st have "e' = e\<lparr>events := events e @ [ev], state := st,
                      invoked := invoked e @ notifications (subscribers e) st,
                      console := console e @ reported (subscribers e) st\<rparr>"
      by (simp add: dispatch_eq)
    with i1 show ?thesis
      by (elim inv_frame) simp_all
  qed
qed

lemma inv_insertEvents:
  assumes "engine_inv e" and "insertEvents e evs = Inr e'"
  shows "engine_inv e'"
proof (cases "evs = []")
  case True
  with assms show ?thesis by (simp add: insertEvents_eq)
next
  case False
  with assms(2) show ?thesis
    by (simp add: insertEvents_eq) (rule rewound_replay_inv [OF assms(1)])
qed

lemma inv_removeEvent:
  assumes "engine_inv e" and "removeEvent e ev = Inr e'"
  shows "engine_inv e'"
proof (cases "findIndex (\<lambda>x. event_id x = event_id ev) (events e)")
  case None
  with assms show ?thesis by (simp add: removeEvent_eq)
next
  case (Some index)
  with assms(2) show ?thesis
    by (simp add: removeEvent_eq) (rule rewound_replay_inv [OF assms(1)])
qed

lemma removeByRef_take: "set (removeByRef r xs) \<subseteq> set xs"
  by (induction xs) auto

lemma removeByRef_sorted:
  "sorted (map f xs) \<Longrightarrow> sorted (map f (removeByRef r xs))"
proof (induction xs)
  case Nil
  show ?case by simp
next
  case (Cons x xs)
  have "set (removeByRef r xs) \<subseteq> set xs" by (rule removeByRef_take)
  with Cons show ?case by auto
qed

lemma inv_disposeSnapshot: "engine_inv e \<Longrightarrow> engine_inv (disposeSnapshot e r)"
  using removeByRef_take [of r "snapshots e"]
  by (auto simp: engine_inv_def snapshot_sound_def disposeSnapshot_def removeByRef_sorted)

lemma inv_perform:
  assumes "engine_inv e" and "perform e opn = Inr e'" and "\<not> is_Replay opn"
  shows "engine_inv e'"
proof (cases opn)
  case (Dispatch ev)
  with assms show ?thesis by (auto intro: inv_dispatch)
next
  case (InsertEvents evs)
  with assms show ?thesis by (auto intro: inv_insertEvents)
next
  case (RemoveEvent ev)
  with assms show ?thesis by (auto intro: inv_removeEvent)
next
  case CreateSnapshot
  with assms(2) have "e' = fst (createSnapshot e)" by simp
  moreover have "engine_inv (e\<lparr>snapshots := snapshots e @
      [(next_ref e, \<lparr>snapshot_state = state e, eventIndex = length (events e)\<rparr>)]\<rparr>)"
    using assms(1) by (rule inv_push_snapshot)
  ultimately show ?thesis
    by (elim inv_frame) (simp_all add: createSnapshot_def)
next
  case (DisposeSnapshot r)
  with assms show ?thesis by (auto intro: inv_disposeSnapshot)
next
  case (Rebaseline st)
  with assms(2) show ?thesis
    by (auto simp: rebaseline_eq engine_inv_def)
next
  case (Replay evs)
  with assms(3) show ?thesis by simp
next
  case (Subscribe callback)
  with assms(2) have "e' = fst (subscribe e callback)" by simp
  with assms(1) show ?thesis
    by (elim inv_frame) (simp_all add: subscribe_def safeCallback_eq)
next
  case (Unsubscribe r)
  with assms(2) have "e' = unsubscribe e r" by simp
  with assms(1) show ?thesis
    by (elim inv_frame) (simp_all add: unsubscribe_def)
qed

lemma inv_performAll:
  assumes "engine_inv e" and "performAll e ops = Inr e'" and "\<forall>opn \<in> set ops. \<not> is_Replay opn"
  shows "engine_inv e'"
  using assms
proof (induction ops arbitrary: e)
  case Nil
  then show ?case by simp
next
  case (Cons opn ops)
  from Cons.prems(2) obtain e1 where e1: "perform e opn = Inr e1" and rest: "performAll e1 ops = Inr e'"
    by (auto split: sum.splits)
  from Cons.prems(1) e1 Cons.prems(3) have "engine_inv e1"
    by (auto intro: inv_perform)
  with rest Cons.prems(3) show ?case
    by (auto intro: Cons.IH)
qed

text \<open>
  C3, as amended. From a fresh engine, after any sequence of \<^verbatim>\<open>dispatch\<close>,
  \<^verbatim>\<open>insertEvents\<close>, \<^verbatim>\<open>removeEvent\<close>, \<^verbatim>\<open>createSnapshot\<close> (and disposal),
  \<^verbatim>\<open>rebaseline\<close>, \<^verbatim>\<open>subscribe\<close> and unsubscribe in which every operation returned, so
  that none was left by an exception of the reducer, and in which \<^verbatim>\<open>replay\<close> was not
  called, the state is the replay of the current log from the initial state. A
  \<^verbatim>\<open>replay(events)\<close> that returns then leaves the log as it is, and the state is the
  replay of the log followed by the replayed events.
\<close>

theorem state_is_fold_of_log:
  assumes "new_EventSource init ap opt = Inr e0" and "performAll e0 ops = Inr e"
    and "\<forall>opn \<in> set ops. \<not> is_Replay opn"
  shows "applyEvents (applyEvent e) (initialState e) (events e) = Inr (getState e)
    \<and> (\<forall>evs e'. replay e evs = Inr e' \<longrightarrow>
          events e' = events e \<and>
          applyEvents (applyEvent e') (initialState e') (events e' @ evs) = Inr (getState e'))"
proof -
  from assms(1) have "engine_inv e0" by (rule inv_new)
  from this assms(2,3) have "engine_inv e" by (rule inv_performAll)
  then have i2: "applyEvents (applyEvent e) (initialState e) (events e) = Inr (state e)"
    by (simp add: engine_inv_def)
  have c1: "applyEvents (applyEvent e) (initialState e) (events e) = Inr (getState e)"
    by (simp add: getState_def i2)
  have c2: "\<forall>evs e'. replay e evs = Inr e' \<longrightarrow>
          events e' = events e \<and>
          applyEvents (applyEvent e') (initialState e') (events e' @ evs) = Inr (getState e')"
    by (auto simp: replay_eq getState_def applyEvents_append i2 split: sum.splits)
  show ?thesis
    by (intro conjI) (fact c1 c2)+
qed

theorem state_is_fold_of_log_witness:
  "new_EventSource initial_counter TestEventSource_applyEvent None = Inr test_engine
   \<and> performAll test_engine mixed_operations = Inr (projr (performAll test_engine mixed_operations))
   \<and> filter is_Replay mixed_operations = []
   \<and> map event_id (events (projr (performAll test_engine mixed_operations))) = [''a'', ''c'', ''d'']
   \<and> applyEvents (applyEvent (projr (performAll test_engine mixed_operations)))
        (initialState (projr (performAll test_engine mixed_operations)))
        (events (projr (performAll test_engine mixed_operations)))
      = Inr (getState (projr (performAll test_engine mixed_operations)))"
proof -
  have new: "new_EventSource initial_counter TestEventSource_applyEvent None = Inr test_engine"
    by (simp add: test_engine_def new_EventSource_def default_snapshotInterval_def)
  have "\<not> isl (performAll test_engine mixed_operations)"
    by code_simp
  then have run: "performAll test_engine mixed_operations
      = Inr (projr (performAll test_engine mixed_operations))"
    by simp
  have norep: "\<forall>opn \<in> set mixed_operations. \<not> is_Replay opn"
    by (simp add: mixed_operations_def)
  have ids: "map event_id (events (projr (performAll test_engine mixed_operations))) = [''a'', ''c'', ''d'']"
    by code_simp
  from state_is_fold_of_log [OF new run norep]
  have "applyEvents (applyEvent (projr (performAll test_engine mixed_operations)))
        (initialState (projr (performAll test_engine mixed_operations)))
        (events (projr (performAll test_engine mixed_operations)))
      = Inr (getState (projr (performAll test_engine mixed_operations)))"
    by (rule conjunct1)
  moreover have "filter is_Replay mixed_operations = []"
    by (simp add: mixed_operations_def)
  ultimately show ?thesis
    using new run ids by (intro conjI)
qed

text \<open>
  C3 as stated fails in two ways. After \<^verbatim>\<open>replay\<close>: on the fresh test engine, replaying
  one event that adds 1 returns with an empty log and the count 1, which is not the
  replay of the log. After an operation that an exception left: the dispatch of the
  \<^verbatim>\<open>SUBTRACT\<close> event \<open>a\<close> on the faulty engine throws and leaves \<open>a\<close> in the log; a
  later dispatch of \<open>c\<close>, which adds 5, returns with the log \<open>a, c\<close> and the count 5,
  which is not the replay of that log.
\<close>

theorem state_not_fold_after_replay_or_exception:
  "(case replay test_engine [createEvent ADD (Some 1) 1000 ''a''] of
      Inl err \<Rightarrow> False
    | Inr e \<Rightarrow>
        events e = [] \<and> count (getState e) = 1 \<and>
        applyEvents (applyEvent e) (initialState e) (events e) \<noteq> Inr (getState e))
   \<and> (case dispatch faulty_engine (createEvent SUBTRACT (Some 1) 1000 ''a'') of
        Inr e1 \<Rightarrow> False
      | Inl (x, e1) \<Rightarrow>
         (case dispatch e1 (createEvent ADD (Some 5) 1100 ''c'') of
            Inl err \<Rightarrow> False
          | Inr e2 \<Rightarrow>
              map event_id (events e2) = [''a'', ''c''] \<and> count (getState e2) = 5 \<and>
              applyEvents (applyEvent e2) (initialState e2) (events e2) \<noteq> Inr (getState e2)))"
  by code_simp

section \<open>Reducer exceptions\<close>

text \<open>
  C1 as stated fails for \<^verbatim>\<open>dispatch\<close>: the faulty engine has an empty log; the dispatch
  of a \<^verbatim>\<open>SUBTRACT\<close> event leaves with the reducer's exception and the event in the log.
\<close>

theorem failed_dispatch_keeps_event:
  "events faulty_engine = [] \<and>
   (case dispatch faulty_engine (createEvent SUBTRACT (Some 1) 1000 ''a'') of
      Inl (x, e') \<Rightarrow> x = ''Faulty apply event'' \<and> map event_id (events e') = [''a'']
    | Inr e' \<Rightarrow> False)"
  by code_simp

lemma insertEvents_thrown_iff:
  "insertEvents e evs = Inl (x, e') \<longleftrightarrow>
     evs \<noteq> [] \<and>
     (\<exists>st. applyEvents (applyEvent e) (rewind_state e (insertIndex (events e) evs))
              (merged_tail e evs) = Inl (x, st)
         \<and> e' = (rewound e (insertIndex (events e) evs) (merged_tail e evs))\<lparr>state := st\<rparr>)"
  by (auto simp: insertEvents_eq replay_eq rewound_fields rewind_state_def merged_tail_def
      split: sum.splits)

lemma removeEvent_thrown_iff:
  "removeEvent e ev = Inl (x, e') \<longleftrightarrow>
     (\<exists>index st. findIndex (\<lambda>a. event_id a = event_id ev) (events e) = Some index
         \<and> applyEvents (applyEvent e) (rewind_state e index) (kept_tail e ev index) = Inl (x, st)
         \<and> e' = (rewound e index (kept_tail e ev index))\<lparr>state := st\<rparr>)"
  by (auto simp: removeEvent_eq replay_eq rewound_fields rewind_state_def kept_tail_def
      split: sum.splits option.splits)

text \<open>
  C1, as amended. An exception of the reducer leaves the operation, no subscriber is
  called, and the engine is not rolled back. Each of the four operations throws
  \<open>x\<close> exactly when the reducer does: \<^verbatim>\<open>dispatch\<close> when it throws on the event at the
  current state, \<^verbatim>\<open>replay\<close> when its loop over the events throws, \<^verbatim>\<open>insertEvents\<close>
  (of a non-empty batch) when the loop over the merged tail throws from the state of
  the snapshot rewound to, \<^verbatim>\<open>removeEvent\<close> (of an id in the log) when the loop over the
  kept tail does. What the exception leaves: after \<^verbatim>\<open>dispatch\<close> the event appended to
  the log and everything else unchanged; after \<^verbatim>\<open>replay\<close> the state reached before the
  failing event and everything else unchanged; after \<^verbatim>\<open>insertEvents\<close> a log that holds
  the old events and the whole batch; after \<^verbatim>\<open>removeEvent\<close> the old log without the
  events of the removed id; after both, a prefix of the old snapshots, and a state at
  which the reducer throws \<open>x\<close> on an event of the log.
\<close>

theorem reducer_exception_not_rolled_back:
  "(dispatch e ev = Inl (x, e') \<longleftrightarrow>
      applyEvent e (state e) ev = Inl x \<and> e' = e\<lparr>events := events e @ [ev]\<rparr>)
   \<and> (replay e evs = Inl (x, e') \<longleftrightarrow>
      (\<exists>st. applyEvents (applyEvent e) (state e) evs = Inl (x, st) \<and> e' = e\<lparr>state := st\<rparr>))
   \<and> (replay e evs = Inl (x, e') \<longrightarrow> (\<exists>a \<in> set evs. applyEvent e (state e') a = Inl x))
   \<and> (insertEvents e evs = Inl (x, e') \<longleftrightarrow>
        evs \<noteq> [] \<and>
        (\<exists>st. applyEvents (applyEvent e) (rewind_state e (insertIndex (events e) evs))
                 (merged_tail e evs) = Inl (x, st)
            \<and> e' = (rewound e (insertIndex (events e) evs) (merged_tail e evs))\<lparr>state := st\<rparr>))
   \<and> (insertEvents e evs = Inl (x, e') \<longrightarrow>
        (\<exists>a \<in> set (events e) \<union> set evs. applyEvent e (state e') a = Inl x)
        \<and> length (events e') = length (events e) + length evs
        \<and> set (events e') = set (events e) \<union> set evs
        \<and> (\<exists>n. snapshots e' = take n (snapshots e))
        \<and> invoked e' = invoked e)
   \<and> (removeEvent e ev = Inl (x, e') \<longleftrightarrow>
        (\<exists>index st. findIndex (\<lambda>a. event_id a = event_id ev) (events e) = Some index
            \<and> applyEvents (applyEvent e) (rewind_state e index) (kept_tail e ev index)
                = Inl (x, st)
            \<and> e' = (rewound e index (kept_tail e ev index))\<lparr>state := st\<rparr>))
   \<and> (removeEvent e ev = Inl (x, e') \<longrightarrow>
        (\<exists>a \<in> set (events e). applyEvent e (state e') a = Inl x)
        \<and> events e' = filter (\<lambda>a. event_id a \<noteq> event_id ev) (events e)
        \<and> (\<exists>n. snapshots e' = take n (snapshots e))
        \<and> invoked e' = invoked e)"
proof -
  have d: "dispatch e ev = Inl (x, e') \<longleftrightarrow>
      applyEvent e (state e) ev = Inl x \<and> e' = e\<lparr>events := events e @ [ev]\<rparr>"
    by (auto simp: dispatch_eq split: sum.splits)
  have r: "replay e evs = Inl (x, e') \<longleftrightarrow>
      (\<exists>st. applyEvents (applyEvent e) (state e) evs = Inl (x, st) \<and> e' = e\<lparr>state := st\<rparr>)"
    by (auto simp: replay_eq split: sum.splits)
  have r2: "replay e evs = Inl (x, e') \<longrightarrow> (\<exists>a \<in> set evs. applyEvent e (state e') a = Inl x)"
    by (auto simp: replay_eq split: sum.splits dest: applyEvents_thrown)
  have rw: "\<exists>a \<in> set tail. applyEvent e (state r') a = Inl x"
      "events r' = take (anchor e i) (events e) @ tail"
      "snapshots r' = retained i (snapshots e)" "invoked r' = invoked e"
    if "replay (rewound e i tail) tail = Inl (x, r')" for i tail r'
    using that
    by (auto simp: replay_eq rewound_fields split: sum.splits dest: applyEvents_thrown)
  have ins: "insertEvents e evs = Inl (x, e') \<longrightarrow>
        (\<exists>a \<in> set (events e) \<union> set evs. applyEvent e (state e') a = Inl x)
        \<and> length (events e') = length (events e) + length evs
        \<and> set (events e') = set (events e) \<union> set evs
        \<and> (\<exists>n. snapshots e' = take n (snapshots e))
        \<and> invoked e' = invoked e"
  proof
    assume a: "insertEvents e evs = Inl (x, e')"
    let ?i = "insertIndex (events e) evs"
    let ?m = "mergeSorted (drop (anchor e ?i) (events e)) evs compareEvents"
    from a have ne: "evs \<noteq> []" and rp: "replay (rewound e ?i ?m) ?m = Inl (x, e')"
      by (auto simp: insertEvents_eq split: if_splits)
    note f = rw [OF rp]
    from f(1) obtain a where "a \<in> set ?m" and thrown: "applyEvent e (state e') a = Inl x"
      by blast
    then have "a \<in> set (events e) \<union> set evs"
      by (auto simp: set_mergeSorted dest: in_set_dropD)
    with thrown have c1: "\<exists>a \<in> set (events e) \<union> set evs. applyEvent e (state e') a = Inl x"
      by blast
    have c2: "length (events e') = length (events e) + length evs"
      by (simp add: f(2) length_mergeSorted)
    have "set (take (anchor e ?i) (events e)) \<union> set (drop (anchor e ?i) (events e)) = set (events e)"
      by (metis append_take_drop_id set_append)
    then have c3: "set (events e') = set (events e) \<union> set evs"
      by (auto simp: f(2) set_mergeSorted)
    have c4: "\<exists>n. snapshots e' = take n (snapshots e)"
      using retained_take [of ?i "snapshots e"] by (simp add: f(3))
    from c1 c2 c3 c4 f(4) show "(\<exists>a \<in> set (events e) \<union> set evs. applyEvent e (state e') a = Inl x)
        \<and> length (events e') = length (events e) + length evs
        \<and> set (events e') = set (events e) \<union> set evs
        \<and> (\<exists>n. snapshots e' = take n (snapshots e))
        \<and> invoked e' = invoked e"
      by (intro conjI)
  qed
  have rem: "removeEvent e ev = Inl (x, e') \<longrightarrow>
        (\<exists>a \<in> set (events e). applyEvent e (state e') a = Inl x)
        \<and> events e' = filter (\<lambda>a. event_id a \<noteq> event_id ev) (events e)
        \<and> (\<exists>n. snapshots e' = take n (snapshots e))
        \<and> invoked e' = invoked e"
  proof
    assume a: "removeEvent e ev = Inl (x, e')"
    then obtain index where "findIndex (\<lambda>a. event_id a = event_id ev) (events e) = Some index"
      by (auto simp: removeEvent_eq split: option.splits)
    let ?keep = "filter (\<lambda>a. event_id a \<noteq> event_id ev) (drop (anchor e index) (events e))"
    from a \<open>findIndex (\<lambda>a. event_id a = event_id ev) (events e) = Some index\<close>
    have rp: "replay (rewound e index ?keep) ?keep = Inl (x, e')"
      by (simp add: removeEvent_eq)
    note f = rw [OF rp]
    from f(1) obtain b where "b \<in> set ?keep" and thrown: "applyEvent e (state e') b = Inl x"
      by blast
    then have "b \<in> set (events e)"
      by (auto dest: in_set_dropD)
    with thrown have c1: "\<exists>a \<in> set (events e). applyEvent e (state e') a = Inl x"
      by blast
    from a have c2: "events e' = filter (\<lambda>a. event_id a \<noteq> event_id ev) (events e)"
      by (intro removeEvent_log) simp
    have c4: "\<exists>n. snapshots e' = take n (snapshots e)"
      using retained_take [of index "snapshots e"] by (simp add: f(3))
    from c1 c2 c4 f(4) show "(\<exists>a \<in> set (events e). applyEvent e (state e') a = Inl x)
        \<and> events e' = filter (\<lambda>a. event_id a \<noteq> event_id ev) (events e)
        \<and> (\<exists>n. snapshots e' = take n (snapshots e))
        \<and> invoked e' = invoked e"
      by (intro conjI)
  qed
  show ?thesis
    by (intro conjI) (fact d r r2 ins rem insertEvents_thrown_iff removeEvent_thrown_iff)+
qed

theorem reducer_exception_not_rolled_back_witness:
  "dispatch faulty_engine (createEvent SUBTRACT (Some 1) 1000 ''a'')
     = Inl (''Faulty apply event'',
            faulty_engine\<lparr>events := events faulty_engine
               @ [createEvent SUBTRACT (Some 1) 1000 ''a'']\<rparr>)
   \<and> replay faulty_engine
        [createEvent ADD (Some 1) 900 ''z'', createEvent SUBTRACT (Some 1) 1000 ''a'']
     = Inl (''Faulty apply event'',
            faulty_engine\<lparr>state := \<lparr>count = 1, lastOperationType = Some ''ADD''\<rparr>\<rparr>)
   \<and> map event_id (events faulty_engine_with_log) = [''b'', ''d'']
   \<and> (\<exists>e'. insertEvents faulty_engine_with_log faulty_batch = Inl (''Faulty apply event'', e')
         \<and> map event_id (events e') = [''b'', ''c'', ''d'']
         \<and> state e' = \<lparr>count = 5, lastOperationType = Some ''ADD''\<rparr>
         \<and> applyEvent faulty_engine_with_log (state e') (createEvent SUBTRACT (Some 1) 300 ''c'')
              = Inl ''Faulty apply event''
         \<and> invoked e' = invoked faulty_engine_with_log)
   \<and> (\<exists>e'. removeEvent faulty_engine_after_insert (createEvent ADD (Some 1) 400 ''d'')
              = Inl (''Faulty apply event'', e')
         \<and> map event_id (events e') = [''b'', ''c'']
         \<and> state e' = \<lparr>count = 5, lastOperationType = Some ''ADD''\<rparr>)"
proof -
  let ?msg = "''Faulty apply event''"
  let ?sub = "createEvent SUBTRACT (Some 1) 1000 ''a''"
  let ?add = "createEvent ADD (Some 1) 900 ''z''"
  let ?d = "createEvent ADD (Some 1) 400 ''d''"
  let ?five = "\<lparr>count = 5, lastOperationType = Some ''ADD''\<rparr>"
  let ?one = "\<lparr>count = 1, lastOperationType = Some ''ADD''\<rparr>"
  let ?E = faulty_engine_with_log
  let ?F = faulty_engine_after_insert
  have thrown: "applyEvent faulty_engine (state faulty_engine) ?sub = Inl ?msg"
    by code_simp
  from reducer_exception_not_rolled_back [of faulty_engine ?sub ?msg
      "faulty_engine\<lparr>events := events faulty_engine @ [?sub]\<rparr>" "[]"] thrown
  have w1: "dispatch faulty_engine ?sub
      = Inl (?msg, faulty_engine\<lparr>events := events faulty_engine @ [?sub]\<rparr>)"
    by blast
  have loop: "applyEvents (applyEvent faulty_engine) (state faulty_engine) [?add, ?sub]
      = Inl (?msg, ?one)"
    by code_simp
  from reducer_exception_not_rolled_back [of faulty_engine ?sub ?msg
      "faulty_engine\<lparr>state := ?one\<rparr>" "[?add, ?sub]"] loop
  have w2: "replay faulty_engine [?add, ?sub] = Inl (?msg, faulty_engine\<lparr>state := ?one\<rparr>)"
    by blast
  have w3: "map event_id (events ?E) = [''b'', ''d'']"
    by code_simp
  let ?i = "insertIndex (events ?E) faulty_batch"
  let ?e1 = "(rewound ?E ?i (merged_tail ?E faulty_batch))\<lparr>state := ?five\<rparr>"
  have ne: "faulty_batch \<noteq> []"
    by (simp add: faulty_batch_def)
  have ins_loop: "applyEvents (applyEvent ?E) (rewind_state ?E ?i) (merged_tail ?E faulty_batch)
      = Inl (?msg, ?five)"
    by code_simp
  from reducer_exception_not_rolled_back [of ?E ?d ?msg ?e1 faulty_batch] ne ins_loop
  have ins: "insertEvents ?E faulty_batch = Inl (?msg, ?e1)"
    by blast
  have ins_ids: "map event_id (events ?e1) = [''b'', ''c'', ''d'']"
    by code_simp
  have ins_thrown: "applyEvent ?E (state ?e1) (createEvent SUBTRACT (Some 1) 300 ''c'') = Inl ?msg"
    by code_simp
  from reducer_exception_not_rolled_back [of ?E ?d ?msg ?e1 faulty_batch] ins
  have ins_inv: "invoked ?e1 = invoked ?E"
    by blast
  have w4: "\<exists>e'. insertEvents ?E faulty_batch = Inl (?msg, e')
         \<and> map event_id (events e') = [''b'', ''c'', ''d'']
         \<and> state e' = ?five
         \<and> applyEvent ?E (state e') (createEvent SUBTRACT (Some 1) 300 ''c'') = Inl ?msg
         \<and> invoked e' = invoked ?E"
    using ins ins_ids ins_thrown ins_inv
    by (intro exI [of _ ?e1] conjI) simp_all
  let ?e2 = "(rewound ?F 2 (kept_tail ?F ?d 2))\<lparr>state := ?five\<rparr>"
  have idx: "findIndex (\<lambda>a. event_id a = event_id ?d) (events ?F) = Some 2"
    by code_simp
  have rem_loop: "applyEvents (applyEvent ?F) (rewind_state ?F 2) (kept_tail ?F ?d 2)
      = Inl (?msg, ?five)"
    by code_simp
  from reducer_exception_not_rolled_back [of ?F ?d ?msg ?e2 "[]"] idx rem_loop
  have rem: "removeEvent ?F ?d = Inl (?msg, ?e2)"
    by blast
  have rem_ids: "map event_id (events ?e2) = [''b'', ''c'']"
    by code_simp
  have w5: "\<exists>e'. removeEvent ?F ?d = Inl (?msg, e')
         \<and> map event_id (events e') = [''b'', ''c''] \<and> state e' = ?five"
    using rem rem_ids
    by (intro exI [of _ ?e2] conjI) simp_all
  show ?thesis
    by (intro conjI) (fact w1 w2 w3 w4 w5)+
qed

section \<open>Dropping the newest event of the host\<close>

lemma applyEvents_prefix:
  "applyEvents ap st (xs @ ys) = Inr st' \<Longrightarrow> \<exists>u. applyEvents ap st xs = Inr u"
  by (cases "applyEvents ap st xs") (auto simp: applyEvents_append)

lemma filter_last_unique:
  assumes "xs \<noteq> []" and "f (last xs) \<notin> f ` set (butlast xs)"
  shows "filter (\<lambda>a. f a \<noteq> f (last xs)) xs = butlast xs"
proof -
  from assms(1) have xs: "xs = butlast xs @ [last xs]" by simp
  from assms(2) have "\<forall>a \<in> set (butlast xs). f a \<noteq> f (last xs)"
    by (metis imageI)
  then have "filter (\<lambda>a. f a \<noteq> f (last xs)) (butlast xs) = butlast xs"
    by (simp add: filter_id_conv)
  then have "filter (\<lambda>a. f a \<noteq> f (last xs)) (butlast xs @ [last xs]) = butlast xs"
    by simp
  with xs show ?thesis by simp
qed

lemma findIndex_last_unique:
  assumes "xs \<noteq> []" and "f (last xs) \<notin> f ` set (butlast xs)"
  shows "findIndex (\<lambda>a. f a = f (last xs)) xs = Some (length xs - 1)"
proof -
  from assms(1) have "last xs \<in> set xs" by simp
  then have "findIndex (\<lambda>a. f a = f (last xs)) xs \<noteq> None"
    by (rule findIndex_found) simp
  then obtain i where i: "findIndex (\<lambda>a. f a = f (last xs)) xs = Some i"
    by auto
  from findIndex_Some [OF i] have lt: "i < length xs" and hit: "f (xs ! i) = f (last xs)"
    by simp_all
  have "i = length xs - 1"
  proof (rule ccontr)
    assume "i \<noteq> length xs - 1"
    with lt have "i < length (butlast xs)" by simp
    then have "butlast xs ! i \<in> set (butlast xs)" by (rule nth_mem)
    moreover have "butlast xs ! i = xs ! i"
      using \<open>i < length (butlast xs)\<close> by (rule nth_butlast)
    ultimately have "f (last xs) \<in> f ` set (butlast xs)"
      using hit by (metis imageI)
    with assms(2) show False by simp
  qed
  with i show ?thesis by simp
qed

lemma removeEvent_pastEventIds:
  "removeEvent h ev = Inr h' \<or> removeEvent h ev = Inl (x, h') \<Longrightarrow>
     pastEventIds h' = pastEventIds h"
  by (auto simp: removeEvent_eq replay_eq rewound_def Let_def dropSnapshots_eq
      split: option.splits sum.splits)

lemma busy_run_facts:
  "case busy_run of
     Inl err \<Rightarrow> False
   | Inr h \<Rightarrow>
       length (events h) = 101
       \<and> event_id (last (events h)) \<notin> event_id ` set (butlast (events h))
       \<and> map (eventIndex \<circ> snd) (snapshots h) = [100]
       \<and> length (subscribers h) = 1
       \<and> event_id (last (events h)) \<in> pastEventIds h
       \<and> snapshot_sound h
            (getLatestSnapshot (dropSnapshotsAfterEventIndex h (length (events h) - 1)))
       \<and> applyEvents (applyEvent h) (initialState h) (butlast (events h))
            = Inr \<lparr>count = 100, lastOperationType = Some ''ADD''\<rparr>"
  by code_simp

text \<open>
  C10, as amended. On an empty log \<^verbatim>\<open>drop()\<close> returns the host unchanged (no state
  change, no notification). On a non-empty log whose last event's id occurs nowhere
  else in the log, \<^verbatim>\<open>drop()\<close>, whether it returns or throws, leaves the log without
  its last event and the past-id set as it was. If moreover the snapshot that it
  rewinds to (the latest one whose index is at most that of the last event, or the
  initial state) holds the replay of the log before its index, and the replay of the
  remaining events from the initial state succeeds with the state \<open>st\<close>, then
  \<^verbatim>\<open>drop()\<close> returns, the state is \<open>st\<close>, and every subscriber is notified once with
  \<open>st\<close>.
\<close>

theorem drop_removes_newest:
  "(events h = [] \<longrightarrow> HostEventSource_drop h = Inr h)
   \<and> (events h \<noteq> [] \<and> event_id (last (events h)) \<notin> event_id ` set (butlast (events h)) \<longrightarrow>
        (HostEventSource_drop h = Inr h' \<or> HostEventSource_drop h = Inl (x, h') \<longrightarrow>
           events h' = butlast (events h) \<and> pastEventIds h' = pastEventIds h)
        \<and> (snapshot_sound h
              (getLatestSnapshot (dropSnapshotsAfterEventIndex h (length (events h) - 1)))
            \<and> applyEvents (applyEvent h) (initialState h) (butlast (events h)) = Inr st \<longrightarrow>
           (\<exists>h'. HostEventSource_drop h = Inr h'
              \<and> events h' = butlast (events h)
              \<and> getState h' = st
              \<and> pastEventIds h' = pastEventIds h
              \<and> invoked h' = invoked h @ map (\<lambda>sub. (fst sub, st)) (subscribers h))))"
proof -
  have empty: "events h = [] \<longrightarrow> HostEventSource_drop h = Inr h"
    by (simp add: HostEventSource_drop_def)
  have nonempty: "events h \<noteq> [] \<and> event_id (last (events h)) \<notin> event_id ` set (butlast (events h)) \<longrightarrow>
        (HostEventSource_drop h = Inr h' \<or> HostEventSource_drop h = Inl (x, h') \<longrightarrow>
           events h' = butlast (events h) \<and> pastEventIds h' = pastEventIds h)
        \<and> (snapshot_sound h
              (getLatestSnapshot (dropSnapshotsAfterEventIndex h (length (events h) - 1)))
            \<and> applyEvents (applyEvent h) (initialState h) (butlast (events h)) = Inr st \<longrightarrow>
           (\<exists>h'. HostEventSource_drop h = Inr h'
              \<and> events h' = butlast (events h)
              \<and> getState h' = st
              \<and> pastEventIds h' = pastEventIds h
              \<and> invoked h' = invoked h @ map (\<lambda>sub. (fst sub, st)) (subscribers h)))"
  proof
    assume a: "events h \<noteq> [] \<and> event_id (last (events h)) \<notin> event_id ` set (butlast (events h))"
    then have ne: "events h \<noteq> []"
      and uniq: "event_id (last (events h)) \<notin> event_id ` set (butlast (events h))"
      by simp_all
    let ?ev = "last (events h)"
    define index where "index = length (events h) - 1"
    have drop_eq: "HostEventSource_drop h = removeEvent h ?ev"
      using ne by (simp add: HostEventSource_drop_def)
    have whole: "filter (\<lambda>a. event_id a \<noteq> event_id ?ev) (events h) = butlast (events h)"
      using ne uniq by (rule filter_last_unique)
    have idx: "findIndex (\<lambda>a. event_id a = event_id ?ev) (events h) = Some index"
      unfolding index_def using ne uniq by (rule findIndex_last_unique)
    have any: "HostEventSource_drop h = Inr h' \<or> HostEventSource_drop h = Inl (x, h') \<longrightarrow>
           events h' = butlast (events h) \<and> pastEventIds h' = pastEventIds h"
    proof
      assume "HostEventSource_drop h = Inr h' \<or> HostEventSource_drop h = Inl (x, h')"
      then have r: "removeEvent h ?ev = Inr h' \<or> removeEvent h ?ev = Inl (x, h')"
        by (simp add: drop_eq)
      from removeEvent_log [OF r] whole have "events h' = butlast (events h)" by simp
      moreover from r have "pastEventIds h' = pastEventIds h" by (rule removeEvent_pastEventIds)
      ultimately show "events h' = butlast (events h) \<and> pastEventIds h' = pastEventIds h" ..
    qed
    have returns: "snapshot_sound h (getLatestSnapshot (dropSnapshotsAfterEventIndex h index))
            \<and> applyEvents (applyEvent h) (initialState h) (butlast (events h)) = Inr st \<longrightarrow>
           (\<exists>h'. HostEventSource_drop h = Inr h'
              \<and> events h' = butlast (events h)
              \<and> getState h' = st
              \<and> pastEventIds h' = pastEventIds h
              \<and> invoked h' = invoked h @ map (\<lambda>sub. (fst sub, st)) (subscribers h))"
    proof
      assume b: "snapshot_sound h (getLatestSnapshot (dropSnapshotsAfterEventIndex h index))
            \<and> applyEvents (applyEvent h) (initialState h) (butlast (events h)) = Inr st"
      let ?k = "anchor h index"
      let ?keep = "filter (\<lambda>a. event_id a \<noteq> event_id ?ev) (drop ?k (events h))"
      let ?sn = "getLatestSnapshot (dropSnapshotsAfterEventIndex h index)"
      from b have sound: "applyEvents (applyEvent h) (initialState h) (take ?k (events h))
          = Inr (snapshot_state ?sn)"
        and rest: "applyEvents (applyEvent h) (initialState h) (butlast (events h)) = Inr st"
        by (simp_all add: snapshot_sound_def anchor_def)
      have rm: "removeEvent h ?ev = replay (rewound h index ?keep) ?keep"
        by (simp add: removeEvent_eq idx)
      have kle: "?k \<le> index" by (rule anchor_le)
      have "set (take ?k (events h)) \<subseteq> set (take index (events h))"
        using kle by (rule set_take_subset_set_take)
      with findIndex_Some [OF idx]
      have "\<forall>a \<in> set (take ?k (events h)). event_id a \<noteq> event_id ?ev"
        by blast
      then have "filter (\<lambda>a. event_id a \<noteq> event_id ?ev) (take ?k (events h)) = take ?k (events h)"
        by (simp add: filter_id_conv)
      then have "take ?k (events h) @ ?keep
          = filter (\<lambda>a. event_id a \<noteq> event_id ?ev) (take ?k (events h) @ drop ?k (events h))"
        by (simp only: filter_append)
      then have split: "take ?k (events h) @ ?keep = butlast (events h)"
        using whole by simp
      from rest have "applyEvents (applyEvent h) (initialState h) (take ?k (events h) @ ?keep)
          = Inr st"
        by (simp only: split)
      with sound have st: "applyEvents (applyEvent h) (snapshot_state ?sn) ?keep = Inr st"
        by (simp add: applyEvents_append)
      define h1 where "h1 = (rewound h index ?keep)\<lparr>state := st,
          invoked := invoked (rewound h index ?keep)
             @ notifications (subscribers (rewound h index ?keep)) st,
          console := console (rewound h index ?keep)
             @ reported (subscribers (rewound h index ?keep)) st\<rparr>"
      have run: "HostEventSource_drop h = Inr h1"
        using st by (simp add: drop_eq rm replay_eq rewound_fields h1_def)
      have ev: "events h1 = butlast (events h)"
        by (simp add: h1_def rewound_fields split)
      have gs: "getState h1 = st"
        by (simp add: h1_def getState_def)
      have past: "pastEventIds h1 = pastEventIds h"
        by (simp add: h1_def rewound_def Let_def dropSnapshots_eq)
      have inv': "invoked h1 = invoked h @ map (\<lambda>sub. (fst sub, st)) (subscribers h)"
        by (simp add: h1_def rewound_fields notifications_def)
      show "\<exists>h'. HostEventSource_drop h = Inr h'
              \<and> events h' = butlast (events h)
              \<and> getState h' = st
              \<and> pastEventIds h' = pastEventIds h
              \<and> invoked h' = invoked h @ map (\<lambda>sub. (fst sub, st)) (subscribers h)"
        by (intro exI [of _ h1] conjI) (fact run ev gs past inv')+
    qed
    show "(HostEventSource_drop h = Inr h' \<or> HostEventSource_drop h = Inl (x, h') \<longrightarrow>
           events h' = butlast (events h) \<and> pastEventIds h' = pastEventIds h)
        \<and> (snapshot_sound h
              (getLatestSnapshot (dropSnapshotsAfterEventIndex h (length (events h) - 1)))
            \<and> applyEvents (applyEvent h) (initialState h) (butlast (events h)) = Inr st \<longrightarrow>
           (\<exists>h'. HostEventSource_drop h = Inr h'
              \<and> events h' = butlast (events h)
              \<and> getState h' = st
              \<and> pastEventIds h' = pastEventIds h
              \<and> invoked h' = invoked h @ map (\<lambda>sub. (fst sub, st)) (subscribers h)))"
      using any returns unfolding index_def by (intro conjI)
  qed
  show ?thesis
    by (intro conjI) (fact empty nonempty)+
qed

theorem drop_removes_newest_witness:
  "length (events busy_host) = 101
   \<and> event_id (last (events busy_host)) \<notin> event_id ` set (butlast (events busy_host))
   \<and> map (eventIndex \<circ> snd) (snapshots busy_host) = [100]
   \<and> length (subscribers busy_host) = 1
   \<and> event_id (last (events busy_host)) \<in> pastEventIds busy_host
   \<and> snapshot_sound busy_host
        (getLatestSnapshot
           (dropSnapshotsAfterEventIndex busy_host (length (events busy_host) - 1)))
   \<and> applyEvents (applyEvent busy_host) (initialState busy_host) (butlast (events busy_host))
        = Inr \<lparr>count = 100, lastOperationType = Some ''ADD''\<rparr>
   \<and> (\<exists>h'. HostEventSource_drop busy_host = Inr h'
         \<and> events h' = butlast (events busy_host)
         \<and> getState h' = \<lparr>count = 100, lastOperationType = Some ''ADD''\<rparr>
         \<and> pastEventIds h' = pastEventIds busy_host
         \<and> invoked h' = invoked busy_host
              @ map (\<lambda>sub. (fst sub, \<lparr>count = 100, lastOperationType = Some ''ADD''\<rparr>))
                  (subscribers busy_host))"
proof -
  have "\<exists>h. busy_run = Inr h"
  proof (cases busy_run)
    case (Inl err)
    from busy_run_facts show ?thesis unfolding Inl by simp
  next
    case (Inr h)
    then show ?thesis by blast
  qed
  then obtain h0 where h0: "busy_run = Inr h0" ..
  have run: "busy_run = Inr busy_host"
    unfolding busy_host_def h0 by simp
  note facts = busy_run_facts [unfolded run sum.case]
  from facts have len: "length (events busy_host) = 101"
    and uniq: "event_id (last (events busy_host)) \<notin> event_id ` set (butlast (events busy_host))"
    and snaps: "map (eventIndex \<circ> snd) (snapshots busy_host) = [100]"
    and subs: "length (subscribers busy_host) = 1"
    and past: "event_id (last (events busy_host)) \<in> pastEventIds busy_host"
    and sound: "snapshot_sound busy_host
        (getLatestSnapshot
           (dropSnapshotsAfterEventIndex busy_host (length (events busy_host) - 1)))"
    and rest: "applyEvents (applyEvent busy_host) (initialState busy_host)
        (butlast (events busy_host)) = Inr \<lparr>count = 100, lastOperationType = Some ''ADD''\<rparr>"
    by blast+
  from len have ne: "events busy_host \<noteq> []" by auto
  from drop_removes_newest [of busy_host _ _ "\<lparr>count = 100, lastOperationType = Some ''ADD''\<rparr>"]
    ne uniq sound rest
  have dropped: "\<exists>h'. HostEventSource_drop busy_host = Inr h'
         \<and> events h' = butlast (events busy_host)
         \<and> getState h' = \<lparr>count = 100, lastOperationType = Some ''ADD''\<rparr>
         \<and> pastEventIds h' = pastEventIds busy_host
         \<and> invoked h' = invoked busy_host
              @ map (\<lambda>sub. (fst sub, \<lparr>count = 100, lastOperationType = Some ''ADD''\<rparr>))
                  (subscribers busy_host)"
    by blast
  show ?thesis
    by (intro conjI) (fact len uniq snaps subs past sound rest dropped)+
qed

text \<open>
  C10 as stated fails in three ways. The id of the last event occurs twice: the test
  host accepts the proposal \<open>x\<close> at 1200 and again at 1300, and \<^verbatim>\<open>drop()\<close> removes both
  events. The replay of the remaining events throws: the host with the faulty reducer
  is left holding the \<^verbatim>\<open>SUBTRACT\<close> event \<open>h1\<close> by a failed dispatch, takes \<open>h2\<close>, and
  \<^verbatim>\<open>drop()\<close> throws. The snapshot rewound to is not the replay of its prefix: after a
  \<^verbatim>\<open>replay\<close> of an event that adds 7 and 101 dispatches that add 1, the snapshot at
  index 100 holds the count 107, and \<^verbatim>\<open>drop()\<close> leaves the count 107 where the replay
  of the 100 remaining events is 100.
\<close>

theorem drop_not_newest_only:
  "(case receiveFromClient test_host 1200 (createEvent ADD (Some 5) 1000 ''x'') ''c1'' of
      Inl err \<Rightarrow> False
    | Inr h1 \<Rightarrow>
       (case receiveFromClient h1 1300 (createEvent ADD (Some 5) 1000 ''x'') ''c1'' of
          Inl err \<Rightarrow> False
        | Inr h2 \<Rightarrow>
            map timestamp (events h2) = [1200, 1300] \<and>
            (case HostEventSource_drop h2 of
               Inl err \<Rightarrow> False
             | Inr h3 \<Rightarrow> events h3 = [] \<and> events h3 \<noteq> butlast (events h2))))
   \<and> (case HostEventSource_dispatch (\<lambda>p. True) faulty_host ''h1'' 1000
              \<lparr>op_type = SUBTRACT, op_value = Some 1, newValue = None\<rparr> of
        Inr h1 \<Rightarrow> False
      | Inl (x1, h1) \<Rightarrow>
         (case HostEventSource_dispatch (\<lambda>p. True) h1 ''h2'' 1100
                 \<lparr>op_type = ADD, op_value = Some 5, newValue = None\<rparr> of
            Inl err \<Rightarrow> False
          | Inr h2 \<Rightarrow>
              map event_id (events h2) = [''h1'', ''h2''] \<and>
              (case HostEventSource_drop h2 of
                 Inr h3 \<Rightarrow> False
               | Inl (x3, h3) \<Rightarrow>
                   x3 = ''Faulty apply event'' \<and> map event_id (events h3) = [''h1'']
                   \<and> count (getState h3) = 0)))
   \<and> (case replay bare_host [createEvent ADD (Some 7) 500 ''r''] of
        Inl err \<Rightarrow> False
      | Inr h0 \<Rightarrow>
         (case dispatchPayloads h0 (many_payloads 101) of
            Inl err \<Rightarrow> False
          | Inr h1 \<Rightarrow>
             length (events h1) = 101 \<and>
             event_id (last (events h1)) \<notin> event_id ` set (butlast (events h1)) \<and>
             map (eventIndex \<circ> snd) (snapshots h1) = [100] \<and>
             (case HostEventSource_drop h1 of
                Inl err \<Rightarrow> False
              | Inr h2 \<Rightarrow>
                  events h2 = butlast (events h1) \<and> count (getState h2) = 107 \<and>
                  applyEvents (applyEvent h2) (initialState h2) (events h2)
                    = Inr \<lparr>count = 100, lastOperationType = Some ''ADD''\<rparr>)))"
  by code_simp

section \<open>Ordered insertion\<close>

text \<open>
  C2. An engine with snapshot interval 1 takes the tail event \<open>b\<close> at time 1000, which
  leaves an ordered log and a snapshot at index 1, and then the one-event batch \<open>a\<close>,
  also at time 1000 and with an id not in the log: the log becomes \<open>b, a\<close>, which is not
  ordered by (timestamp, id).
\<close>

theorem insertEvents_same_timestamp_unordered:
  "case new_EventSource initial_counter TestEventSource_applyEvent (Some 1) of
     Inl m \<Rightarrow> False
   | Inr e0 \<Rightarrow>
      (case dispatch e0 (createEvent ADD (Some 1) 1000 ''b'') of
         Inl err \<Rightarrow> False
       | Inr e1 \<Rightarrow>
          log_ordered (events e1) \<and>
          map (eventIndex \<circ> snd) (snapshots e1) = [1] \<and>
          (case insertEvents e1 [createEvent ADD (Some 10) 1000 ''a''] of
             Inl err \<Rightarrow> False
           | Inr e2 \<Rightarrow>
               map event_id (events e2) = [''b'', ''a''] \<and> \<not> log_ordered (events e2)))"
  by code_simp

text \<open>
  C6. With snapshot interval 1, \<open>pre\<close> the event \<open>b\<close> (multiply by 2) and \<open>add\<close> the event
  \<open>a\<close> (add 10), both at time 1000: dispatching the merge \<open>a, b\<close> gives the count 20,
  dispatching \<open>pre\<close> and then inserting \<open>add\<close> gives the count 10.
\<close>

theorem insertion_equivalence_fails:
  "case new_EventSource initial_counter TestEventSource_applyEvent (Some 1) of
     Inl m \<Rightarrow> False
   | Inr e0 \<Rightarrow>
      (let pre = [createEvent MULTIPLY (Some 2) 1000 ''b''];
           add = [createEvent ADD (Some 10) 1000 ''a'']
       in log_ordered pre \<and> log_ordered add \<and> log_ordered (mergeSorted pre add compareEvents) \<and>
          (case dispatchAll e0 (mergeSorted pre add compareEvents) of
             Inl err \<Rightarrow> False
           | Inr e1 \<Rightarrow>
              (case dispatchAll e0 pre of
                 Inl err \<Rightarrow> False
               | Inr e2 \<Rightarrow>
                  (case insertEvents e2 add of
                     Inl err \<Rightarrow> False
                   | Inr e3 \<Rightarrow> count (getState e1) = 20 \<and> count (getState e3) = 10))))"
  by code_simp

section \<open>Client proposals and history requests\<close>

text \<open>
  The host's own \<^verbatim>\<open>dispatch(payload)\<close> on the test host: the generated id is recorded in
  the past-id set and the event is posted to both clients.
\<close>

lemma host_dispatch_records_and_broadcasts:
  "case HostEventSource_dispatch (\<lambda>p. True) test_host ''h1'' 1200
          \<lparr>op_type = ADD, op_value = Some 5, newValue = None\<rparr> of
     Inl err \<Rightarrow> False
   | Inr h1 \<Rightarrow>
       map event_id (events h1) = [''h1''] \<and> ''h1'' \<in> pastEventIds h1 \<and>
       map fst (posted h1) = [1, 2]"
  by code_simp

text \<open>
  C4. The host accepts the proposal \<open>x\<close> of client \<open>c1\<close>: the event is in the log and its
  id is not in the past-id set. The same proposal sent again is accepted again: the log
  holds two events with the id \<open>x\<close> and no rejection is posted.
\<close>

theorem accepted_proposal_not_remembered:
  "case receiveFromClient test_host 1200 (createEvent ADD (Some 5) 1000 ''x'') ''c1'' of
     Inl err \<Rightarrow> False
   | Inr h1 \<Rightarrow>
       map event_id (events h1) = [''x''] \<and> ''x'' \<notin> pastEventIds h1 \<and>
       (case receiveFromClient h1 1300 (createEvent ADD (Some 5) 1000 ''x'') ''c1'' of
          Inl err \<Rightarrow> False
        | Inr h2 \<Rightarrow> map event_id (events h2) = [''x'', ''x''] \<and> posted h2 = [])"
  by code_simp

text \<open>
  C5. The host has the clients \<open>c1\<close> and \<open>c2\<close> and a filter that returns every payload.
  It accepts the proposal \<open>x\<close> of \<open>c1\<close> at time 1200: the event enters the log with the
  timestamp 1200 and the source \<open>c1\<close>, and no message is posted to any client.
\<close>

theorem accepted_proposal_not_broadcast:
  "case receiveFromClient test_host 1200 (createEvent ADD (Some 5) 1000 ''x'') ''c1'' of
     Inl err \<Rightarrow> False
   | Inr h1 \<Rightarrow>
       map (\<lambda>c. (fst c, port (snd c))) (clients h1) = [(''c1'', 1), (''c2'', 2)] \<and>
       filterForClient h1 (payload (last (events h1))) ''c1'' \<noteq> None \<and>
       filterForClient h1 (payload (last (events h1))) ''c2'' \<noteq> None \<and>
       map timestamp (events h1) = [1200] \<and>
       map (clientId \<circ> source) (events h1) = [''c1''] \<and>
       posted h1 = []"
  by code_simp

lemma filter_map_history:
  "map the
     (filter (\<lambda>e. e \<noteq> None)
        (map (\<lambda>e. case flt (payload e) cid of
                     Some filtered \<Rightarrow> Some (e\<lparr>payload := filtered\<rparr>)
                   | None \<Rightarrow> None)
           (filter (\<lambda>e. timestamp e > since) log)))
   = requested_history flt cid since log"
  by (induction log) (auto split: option.splits)

lemma eventsToSend_eq:
  "eventsToSend h cid since = requested_history (filterForClient h) cid since (events h)"
  unfolding eventsToSend_def by (rule filter_map_history)

text \<open>
  C8. On a \<^verbatim>\<open>requestHistory\<close> message with the bound \<open>since\<close>, the listener registered
  for client \<open>cid\<close> on port \<open>prt\<close> returns normally, having posted exactly one message, on
  \<open>prt\<close>: the \<^verbatim>\<open>eventHistory\<close> of the log events with a timestamp above \<open>since\<close>, in log
  order, each with the payload that the filter returns for \<open>cid\<close>, those for which it
  returns \<^verbatim>\<open>null\<close> left out. Nothing else of the host changes.
\<close>

theorem requestHistory_reply:
  "onMessage h now cid prt (RequestHistoryMsg since) =
     Inr (h\<lparr>posted := posted h @
              [(prt, EventHistoryMsg (requested_history (filterForClient h) cid since (events h)))]\<rparr>)"
  by (simp add: onMessage_def eventsToSend_eq)

end
